theory Spec2Isabelle
  imports
    Main
    "HOL-Library.Char_ord"
    "HOL-Library.List_Lexorder"
    "HOL-Library.Multiset"
    "HOL-Library.Sublist"
begin

section \<open>Data model of \<open>configstack/stack.go\<close>\<close>

text \<open>
  A Go \<open>string\<close> is a byte sequence compared bytewise and lexicographically; the model
  uses \<^typ>\<open>string\<close> with the lexicographic order of \<open>List_Lexorder\<close> over the
  character order of \<open>Char_ord\<close>.

  \<open>TerragruntOptions\<close> and \<open>TerraformModule\<close> are declared outside \<open>stack.go\<close>; the
  records have the fields that \<open>stack.go\<close> reads or writes. The stack as a whole and every
  module have options of their own. The writers \<open>Writer\<close> and \<open>ErrWriter\<close> and the logger
  are effects: what a module writes to its \<open>ErrWriter\<close> is a result of the execution
  engine, and the calls of the logger are returned as a list.

  The Go field \<open>Dependencies\<close> of a module is a slice of pointers to modules; the only
  thing read through such a pointer is the \<open>Path\<close> of the module pointed to, so the model
  stores those paths. \<open>ConfigDependenciesPaths\<close> is \<open>Config.Dependencies.Paths\<close>.
\<close>

record TerragruntOptions =
  TerraformCommand :: string
  TerraformCliArgs :: "string list"
  OutputFolder :: string
  RunAllAutoApprove :: bool
  IgnoreDependencyOrder :: bool
  Parallelism :: int

record TerraformModule =
  Path :: string
  Dependencies :: "string list"
  ConfigDependenciesPaths :: "string list"
  AssumeAlreadyApplied :: bool
  ModuleOptions :: TerragruntOptions

record Stack =
  StackPath :: string
  Modules :: "TerraformModule list"

text \<open>
  \<open>runningModule\<close> wraps a module for one scheduling run. Its Go field \<open>Dependencies\<close>
  is a \<open>map[string]*runningModule\<close> of which \<open>getModuleRunGraph\<close> only tests keys,
  counts keys and deletes keys: the model keeps the key set under the name \<open>Remaining\<close>.
\<close>

record runningModule =
  Module :: TerraformModule
  Remaining :: "string set"

datatype DependencyOrder = NormalOrder | ReverseOrder | IgnoreOrder

datatype error =
    NoTerraformModulesFound
  | DependencyCycle "string list"
  | GraphConstructionError string string
  | OtherError string

text \<open>
  A Go map with string keys is an association list with distinct keys. Go leaves the order
  of \<open>range\<close> over a map unspecified; the functions below visit the entries front to back,
  and the relation \<open>runsTo\<close> further down admits every order.
\<close>

type_synonym moduleGraph = "(string \<times> runningModule) list"

type_synonym runPlan = "TerraformModule list list"

section \<open>Building the graph\<close>

definition CommandNameDestroy :: string where
  "CommandNameDestroy = ''destroy''"

definition CommandNamePlan :: string where
  "CommandNamePlan = ''plan''"

definition CommandNameApply :: string where
  "CommandNameApply = ''apply''"

definition newRunningModule :: "TerraformModule \<Rightarrow> runningModule" where
  "newRunningModule m = \<lparr>Module = m, Remaining = {}\<rparr>"

text \<open>Storing under a key of a Go map: an existing entry is overwritten, a new one added.\<close>

fun mapStore :: "string \<Rightarrow> 'v \<Rightarrow> (string \<times> 'v) list \<Rightarrow> (string \<times> 'v) list" where
  "mapStore k v [] = [(k, v)]"
| "mapStore k v ((k', v') # rest) =
     (if k = k' then (k, v) # rest else (k', v') # mapStore k v rest)"

text \<open>
  Modelled from the spec: \<open>toRunningModules\<close> is called by \<open>getModuleRunGraph\<close> but
  defined in a file that is not part of the sources at hand. Section 4.1 of the
  specification: the result maps every module id to a node; in forward direction the node's
  remaining dependencies are the module's declared dependency ids; in reverse direction, for
  every module M that declares dependency D, the node of D gains M; a declared dependency id
  without a module in the stack is a graph construction error.
\<close>

definition danglingDependencies :: "moduleGraph \<Rightarrow> (string \<times> string) list" where
  "danglingDependencies nodes =
     concat (map (\<lambda>(p, n). map (\<lambda>d. (p, d))
        (filter (\<lambda>d. d \<notin> set (map fst nodes)) (Dependencies (Module n)))) nodes)"

definition dependents :: "moduleGraph \<Rightarrow> string \<Rightarrow> string set" where
  "dependents nodes p =
     set (map fst (filter (\<lambda>(q, n). p \<in> set (Dependencies (Module n))) nodes))"

definition crossLinkDependencies ::
    "moduleGraph \<Rightarrow> DependencyOrder \<Rightarrow> error + moduleGraph" where
  "crossLinkDependencies nodes dependencyOrder =
     (case danglingDependencies nodes of
        (p, d) # _ \<Rightarrow> Inl (GraphConstructionError p d)
      | [] \<Rightarrow>
          Inr (map (\<lambda>(p, n). (p, n\<lparr>Remaining :=
                 (case dependencyOrder of
                    NormalOrder \<Rightarrow> set (Dependencies (Module n))
                  | ReverseOrder \<Rightarrow> dependents nodes p
                  | IgnoreOrder \<Rightarrow> {})\<rparr>)) nodes))"

definition toRunningModules ::
    "TerraformModule list \<Rightarrow> DependencyOrder \<Rightarrow> error + moduleGraph" where
  "toRunningModules modules dependencyOrder =
     crossLinkDependencies
       (fold (\<lambda>m g. mapStore (Path m) (newRunningModule m) g) modules [])
       dependencyOrder"

section \<open>The group scheduler: \<open>getModuleRunGraph\<close>\<close>

text \<open>
  The first \<open>range\<close> loop of an iteration (lines 251 to 262): every node goes to exactly
  one of three places. The result is the triple \<open>(currentIterationDeploy, removeDep, next)\<close>.
  The test \<open>len(module.Dependencies) == 0\<close> is emptiness of the key set.
\<close>

fun scanModules ::
    "moduleGraph \<Rightarrow> TerraformModule list \<times> string list \<times> moduleGraph" where
  "scanModules [] = ([], [], [])"
| "scanModules ((path, module) # rest) =
     (case scanModules rest of (currentIterationDeploy, removeDep, next) \<Rightarrow>
        if AssumeAlreadyApplied (Module module) then
          (currentIterationDeploy, path # removeDep, next)
        else if Remaining module = {} then
          (Module module # currentIterationDeploy, path # removeDep, next)
        else
          (currentIterationDeploy, removeDep, (path, module) # next))"

text \<open>
  The second loop (lines 266 to 273): every path of \<open>removeDep\<close> that is a key of a
  deferred node's dependency map is deleted from it.
\<close>

definition deleteDeps :: "string list \<Rightarrow> string set \<Rightarrow> string set" where
  "deleteDeps removeDep deps =
     fold (\<lambda>path ds. if path \<in> ds then ds - {path} else ds) removeDep deps"

definition removeDeps :: "string list \<Rightarrow> moduleGraph \<Rightarrow> moduleGraph" where
  "removeDeps removeDep next =
     map (\<lambda>(path, module).
        (path, module\<lparr>Remaining := deleteDeps removeDep (Remaining module)\<rparr>)) next"

text \<open>
  The outer loop (lines 239 to 288). It has no bound on the number of iterations of its own,
  so it is a partial function: \<open>None\<close> is a run that never leaves the loop. The bound
  on the number of groups is the parameter \<open>depthCap\<close>, which \<open>getModuleRunGraph\<close>
  sets to the constant \<open>maxDepth\<close> of the source. \<open>sort.Slice\<close> with the comparison of
  paths is \<open>sort_key Path\<close> here; the modules of one group come from distinct keys of one
  map, so that every sorting algorithm returns the same list (\<open>runsTo\<close> below admits any
  sorted arrangement).
\<close>

partial_function (option) groupLoop ::
    "nat \<Rightarrow> moduleGraph \<Rightarrow> runPlan \<Rightarrow> runPlan option" where
  "groupLoop depthCap moduleRunGraph groups =
     (if length moduleRunGraph > 0 \<and> length groups < depthCap then
        (case scanModules moduleRunGraph of (currentIterationDeploy, removeDep, next) \<Rightarrow>
           groupLoop depthCap (removeDeps removeDep next)
             (if length currentIterationDeploy > 0
              then groups @ [sort_key Path currentIterationDeploy]
              else groups))
      else Some groups)"

declare groupLoop.simps [code]

definition maxDepth :: nat where
  "maxDepth = 1000"

definition getModuleRunGraph :: "Stack \<Rightarrow> string \<Rightarrow> (error + runPlan) option" where
  "getModuleRunGraph stack terraformCommand =
     (case (if terraformCommand = CommandNameDestroy
            then toRunningModules (Modules stack) ReverseOrder
            else toRunningModules (Modules stack) NormalOrder) of
        Inl graphErr \<Rightarrow> Some (Inl graphErr)
      | Inr moduleRunGraph \<Rightarrow> map_option Inr (groupLoop maxDepth moduleRunGraph []))"

text \<open>
  The same loop as a relation that leaves open what Go leaves open: in every iteration the
  entries of the map are visited in some order (\<open>visited\<close> is any enumeration of the
  current graph), and \<open>sort.Slice\<close>, which is not stable, returns some arrangement of the
  group that is sorted by path.
\<close>

inductive runsTo :: "nat \<Rightarrow> moduleGraph \<Rightarrow> runPlan \<Rightarrow> runPlan \<Rightarrow> bool" where
  finished: "\<not> (0 < length g \<and> length gs < c) \<Longrightarrow> runsTo c g gs gs"
| iteration:
    "0 < length g \<Longrightarrow> length gs < c \<Longrightarrow>
     mset visited = mset g \<Longrightarrow>
     scanModules visited = (currentIterationDeploy, removeDep, next) \<Longrightarrow>
     mset sortedDeploy = mset currentIterationDeploy \<Longrightarrow>
     sorted (map Path sortedDeploy) \<Longrightarrow>
     runsTo c (removeDeps removeDep next)
       (if 0 < length currentIterationDeploy then gs @ [sortedDeploy] else gs) r \<Longrightarrow>
     runsTo c g gs r"

section \<open>The structured report: \<open>JsonModuleDeployOrder\<close>\<close>

text \<open>\<open>fmt.Sprintf("%d", n)\<close> for a number that is not negative.\<close>

fun showNat :: "nat \<Rightarrow> string" where
  "showNat n =
     (if n < 10 then [''0123456789'' ! n]
      else showNat (n div 10) @ [''0123456789'' ! (n mod 10)])"

declare showNat.simps [simp del]

definition groupNum :: "nat \<Rightarrow> string" where
  "groupNum i = ''Group '' @ showNat (i + 1)"

text \<open>
  Lines 71 to 78: the map from group label to the paths of the group, filled in the order of
  the groups.
\<close>

definition jsonGraphOf :: "runPlan \<Rightarrow> (string \<times> string list) list" where
  "jsonGraphOf runGraph =
     fold (\<lambda>(i, group) jsonGraph. mapStore (groupNum i) (map Path group) jsonGraph)
       (enumerate 0 runGraph) []"

text \<open>
  \<open>json.MarshalIndent\<close> belongs to the Go library. For a map it writes one member for
  every key, the keys sorted as strings. The model returns the members in the order in which
  they are written; the characters of the text (indentation, quoting) are not modelled.
\<close>

definition MarshalIndent :: "(string \<times> string list) list \<Rightarrow> (string \<times> string list) list" where
  "MarshalIndent jsonGraph = sort_key fst jsonGraph"

definition JsonModuleDeployOrder ::
    "Stack \<Rightarrow> string \<Rightarrow> (error + (string \<times> string list) list) option" where
  "JsonModuleDeployOrder stack terraformCommand =
     (case getModuleRunGraph stack terraformCommand of
        None \<Rightarrow> None
      | Some (Inl err) \<Rightarrow> Some (Inl err)
      | Some (Inr runGraph) \<Rightarrow> Some (Inr (MarshalIndent (jsonGraphOf runGraph))))"

section \<open>Construction: \<open>createStackForTerragruntConfigPaths\<close>\<close>

text \<open>
  \<open>ResolveTerraformModules\<close> and \<open>CheckForCycles\<close> are defined outside \<open>stack.go\<close>; they
  are the parameters \<open>resolve\<close> and \<open>checkForCycles\<close>. \<open>telemetry.Telemetry\<close> runs the
  function it is given and returns its error, and \<open>errors.WithStackTrace\<close> keeps the error
  it wraps; both are left out.
\<close>

definition createStackForTerragruntConfigPaths ::
    "(string list \<Rightarrow> error + TerraformModule list) \<Rightarrow>
     (TerraformModule list \<Rightarrow> error option) \<Rightarrow>
     string \<Rightarrow> string list \<Rightarrow> error + Stack" where
  "createStackForTerragruntConfigPaths resolve checkForCycles path terragruntConfigPaths =
     (case (if length terragruntConfigPaths = 0 then Inl NoTerraformModulesFound
            else (case resolve terragruntConfigPaths of
                    Inl err \<Rightarrow> Inl err
                  | Inr modules \<Rightarrow> Inr \<lparr>StackPath = path, Modules = modules\<rparr>)) of
        Inl err \<Rightarrow> Inl err
      | Inr stack \<Rightarrow>
          (case checkForCycles (Modules stack) of
             Some err \<Rightarrow> Inl err
           | None \<Rightarrow> Inr stack))"

section \<open>Running a stack: \<open>Run\<close> and \<open>summarizePlanAllErrors\<close>\<close>

text \<open>\<open>strings.Contains\<close>: the second string occurs in the first as a contiguous part.\<close>

definition Contains :: "string \<Rightarrow> string \<Rightarrow> bool" where
  "Contains s substr = sublist substr s"

text \<open>The calls of the logger, in the order in which they are made.\<close>

datatype log_call = Infoln string | Infof string

text \<open>\<open>fmt.Sprintf("%v", xs)\<close> for a slice of strings.\<close>

fun joinStrings :: "string list \<Rightarrow> string" where
  "joinStrings [] = []"
| "joinStrings [x] = x"
| "joinStrings (x # y # rest) = x @ '' '' @ joinStrings (y # rest)"

definition showStrings :: "string list \<Rightarrow> string" where
  "showStrings xs = ''['' @ joinStrings xs @ '']''"

text \<open>The message of lines 155 to 163 for one module.\<close>

definition remoteStateHint :: "TerraformModule \<Rightarrow> string" where
  "remoteStateHint m =
     (let dependenciesMsg =
        (if length (Dependencies m) > 0
         then '' contains dependencies to '' @ showStrings (ConfigDependenciesPaths m) @ '' and''
         else '''')
      in Path m @ dependenciesMsg @
         '' refers to remote state you may have to apply your changes in the dependencies prior running terragrunt run-all plan.''
         @ [CHR 0x0A])"

text \<open>
  The loop of \<open>summarizePlanAllErrors\<close> from index \<open>i\<close> on. \<open>stack.Modules[i]\<close> panics
  when \<open>i\<close> is out of range; a panic is \<open>Inl\<close>.
\<close>

fun summarizeFrom ::
    "TerraformModule list \<Rightarrow> nat \<Rightarrow> string list \<Rightarrow> string + log_call list" where
  "summarizeFrom modules i [] = Inr []"
| "summarizeFrom modules i (output # rest) =
     (if length output = 0 then summarizeFrom modules (Suc i) rest
      else if Contains output ''Error running plan:''
            \<and> Contains output '': Resource 'data.terraform_remote_state.'' then
        (if i < length modules then
           (case summarizeFrom modules (Suc i) rest of
              Inl panic \<Rightarrow> Inl panic
            | Inr logged \<Rightarrow> Inr (Infoln output # Infof (remoteStateHint (modules ! i)) # logged))
         else Inl ''index out of range'')
      else
        (case summarizeFrom modules (Suc i) rest of
           Inl panic \<Rightarrow> Inl panic
         | Inr logged \<Rightarrow> Inr (Infoln output # logged)))"

definition summarizePlanAllErrors :: "Stack \<Rightarrow> string list \<Rightarrow> string + log_call list" where
  "summarizePlanAllErrors stack errorStreams = summarizeFrom (Modules stack) 0 errorStreams"

text \<open>
  What \<open>Run\<close> uses from outside \<open>stack.go\<close>: the list of commands that need input, the
  insertion into a list of strings, the name of the plan file of a module (from its output
  folder and its path), and the three variants of the execution engine. An engine returns
  what every module, by its index, wrote to its \<open>ErrWriter\<close>, and the error of the run.
\<close>

record collaborators =
  TERRAFORM_COMMANDS_NEED_INPUT :: "string list"
  StringListInsert :: "string list \<Rightarrow> string \<Rightarrow> nat \<Rightarrow> string list"
  planFileOf :: "string \<Rightarrow> string \<Rightarrow> string"
  RunModules ::
    "TerragruntOptions \<Rightarrow> TerraformModule list \<Rightarrow> int \<Rightarrow> (nat \<Rightarrow> string) \<times> error option"
  RunModulesReverseOrder ::
    "TerragruntOptions \<Rightarrow> TerraformModule list \<Rightarrow> int \<Rightarrow> (nat \<Rightarrow> string) \<times> error option"
  RunModulesIgnoreOrder ::
    "TerragruntOptions \<Rightarrow> TerraformModule list \<Rightarrow> int \<Rightarrow> (nat \<Rightarrow> string) \<times> error option"

definition syncModule ::
    "collaborators \<Rightarrow> TerragruntOptions \<Rightarrow> TerraformModule \<Rightarrow> TerraformModule" where
  "syncModule c terragruntOptions module =
     (let args = TerraformCliArgs terragruntOptions;
          opts = ModuleOptions module
      in if OutputFolder opts \<noteq> '''' then
           (let planFile = planFileOf c (OutputFolder opts) (Path module)
            in if TerraformCommand opts = CommandNamePlan then
                 module\<lparr>ModuleOptions := opts\<lparr>TerraformCliArgs :=
                   StringListInsert c args (''-out='' @ planFile) (length args)\<rparr>\<rparr>
               else
                 module\<lparr>ModuleOptions := opts\<lparr>TerraformCliArgs :=
                   StringListInsert c args planFile (length args)\<rparr>\<rparr>)
         else module\<lparr>ModuleOptions := opts\<lparr>TerraformCliArgs := args\<rparr>\<rparr>)"

definition syncTerraformCliArgs ::
    "collaborators \<Rightarrow> TerragruntOptions \<Rightarrow> Stack \<Rightarrow> Stack" where
  "syncTerraformCliArgs c terragruntOptions stack =
     stack\<lparr>Modules := map (syncModule c terragruntOptions) (Modules stack)\<rparr>"

text \<open>
  Lines 95 to 128 of \<open>Run\<close>: the options and the stack as they are when the engine is
  called. The redirection of every module's \<open>ErrWriter\<close> for \<open>plan\<close> is part of the
  engine's result.
\<close>

definition prepareRun ::
    "collaborators \<Rightarrow> TerragruntOptions \<Rightarrow> Stack \<Rightarrow> TerragruntOptions \<times> Stack" where
  "prepareRun c terragruntOptions stack =
     (let stackCmd = TerraformCommand terragruntOptions;
          (opts1, stack1) =
            (if stackCmd \<in> set (TERRAFORM_COMMANDS_NEED_INPUT c) then
               (let withInput = terragruntOptions\<lparr>TerraformCliArgs :=
                      StringListInsert c (TerraformCliArgs terragruntOptions) ''-input=false'' 1\<rparr>
                in (withInput, syncTerraformCliArgs c withInput stack))
             else (terragruntOptions, stack))
      in if stackCmd = CommandNameApply \<or> stackCmd = CommandNameDestroy then
           (let opts2 = (if RunAllAutoApprove opts1
                         then opts1\<lparr>TerraformCliArgs :=
                                StringListInsert c (TerraformCliArgs opts1) ''-auto-approve'' 1\<rparr>
                         else opts1)
            in (opts2, syncTerraformCliArgs c opts2 stack1))
         else (opts1, stack1))"

text \<open>Lines 130 to 137: the choice of the engine.\<close>

definition runEngine ::
    "collaborators \<Rightarrow> string \<Rightarrow> TerragruntOptions \<Rightarrow> Stack \<Rightarrow>
     (nat \<Rightarrow> string) \<times> error option" where
  "runEngine c stackCmd terragruntOptions stack =
     (if IgnoreDependencyOrder terragruntOptions then
        RunModulesIgnoreOrder c terragruntOptions (Modules stack) (Parallelism terragruntOptions)
      else if stackCmd = CommandNameDestroy then
        RunModulesReverseOrder c terragruntOptions (Modules stack) (Parallelism terragruntOptions)
      else
        RunModules c terragruntOptions (Modules stack) (Parallelism terragruntOptions))"

text \<open>
  \<open>Run\<close> as a whole. For \<open>plan\<close> there is one error stream for every module of the
  stack, filled by the engine, and the deferred call of line 127 runs after the engine has
  returned. The result is the list of the logger's calls and the error that \<open>Run\<close>
  returns, or a panic.
\<close>

definition Run ::
    "collaborators \<Rightarrow> TerragruntOptions \<Rightarrow> Stack \<Rightarrow> string + (log_call list \<times> error option)" where
  "Run c terragruntOptions stack =
     (let stackCmd = TerraformCommand terragruntOptions;
          (opts, stack') = prepareRun c terragruntOptions stack;
          (written, err) = runEngine c stackCmd opts stack'
      in if stackCmd = CommandNamePlan then
           (case summarizePlanAllErrors stack' (map written [0..<length (Modules stack')]) of
              Inl panic \<Rightarrow> Inl panic
            | Inr logged \<Rightarrow> Inr (logged, err))
         else Inr ([], err))"

section \<open>Vocabulary of the properties\<close>

definition isReady :: "string \<times> runningModule \<Rightarrow> bool" where
  "isReady e = (AssumeAlreadyApplied (Module (snd e)) \<or> Remaining (snd e) = {})"

definition deployOf :: "moduleGraph \<Rightarrow> TerraformModule list" where
  "deployOf g = map (\<lambda>e. Module (snd e))
     (filter (\<lambda>e. \<not> AssumeAlreadyApplied (Module (snd e)) \<and> Remaining (snd e) = {}) g)"

definition removedOf :: "moduleGraph \<Rightarrow> string set" where
  "removedOf g = fst ` {e \<in> set g. isReady e}"

definition nextOf :: "moduleGraph \<Rightarrow> moduleGraph" where
  "nextOf g = map (\<lambda>e. (fst e, (snd e)\<lparr>Remaining := Remaining (snd e) - removedOf g\<rparr>))
     (filter (\<lambda>e. \<not> isReady e) g)"

definition graphKeys :: "moduleGraph \<Rightarrow> string set" where
  "graphKeys g = fst ` set g"

text \<open>
  The invariants of a graph: it is a map whose keys are the paths of its modules
  (\<open>wfGraph\<close>), and the remaining dependencies are keys of the graph (\<open>closedGraph\<close>).
\<close>

definition wfGraph :: "moduleGraph \<Rightarrow> bool" where
  "wfGraph g \<longleftrightarrow> distinct (map fst g) \<and> (\<forall>e\<in>set g. Path (Module (snd e)) = fst e)"

definition closedGraph :: "moduleGraph \<Rightarrow> bool" where
  "closedGraph g \<longleftrightarrow> (\<forall>e\<in>set g. Remaining (snd e) \<subseteq> graphKeys g)"

definition graphRel :: "moduleGraph \<Rightarrow> (string \<times> string) set" where
  "graphRel g = {(p, d). \<exists>e\<in>set g. p = fst e \<and> d \<in> Remaining (snd e)}"

definition remainingOf :: "moduleGraph \<Rightarrow> string \<Rightarrow> string set" where
  "remainingOf g p = \<Union> ((\<lambda>e. Remaining (snd e)) ` {e \<in> set g. fst e = p})"

definition appliedKeys :: "moduleGraph \<Rightarrow> string set" where
  "appliedKeys g = fst ` {e \<in> set g. AssumeAlreadyApplied (Module (snd e))}"

definition schedulable :: "moduleGraph \<Rightarrow> TerraformModule set" where
  "schedulable g =
     (\<lambda>e. Module (snd e)) ` {e \<in> set g. \<not> AssumeAlreadyApplied (Module (snd e))}"

text \<open>
  \<open>planOrdered D S plan\<close>: every module of a group has all its dependencies \<open>D\<close> among
  \<open>S\<close> and the paths of the groups before it.
\<close>

fun planOrdered :: "(string \<Rightarrow> string set) \<Rightarrow> string set \<Rightarrow> runPlan \<Rightarrow> bool" where
  "planOrdered D S [] = True"
| "planOrdered D S (grp # rest) =
     ((\<forall>m\<in>set grp. D (Path m) \<subseteq> S) \<and> planOrdered D (S \<union> Path ` set grp) rest)"

text \<open>
  The declared dependency relation of a list of modules, whether every declared dependency
  is a module of the list, the prerequisites of a module in the direction of a command, and
  the paths of the modules that are assumed to be applied.
\<close>

definition depRel :: "TerraformModule list \<Rightarrow> (string \<times> string) set" where
  "depRel modules = (\<Union>m\<in>set modules. (\<lambda>d. (Path m, d)) ` set (Dependencies m))"

definition resolved :: "TerraformModule list \<Rightarrow> bool" where
  "resolved modules \<longleftrightarrow> (\<forall>m\<in>set modules. set (Dependencies m) \<subseteq> Path ` set modules)"

definition prerequisites :: "TerraformModule list \<Rightarrow> string \<Rightarrow> TerraformModule \<Rightarrow> string set" where
  "prerequisites modules terraformCommand m =
     (if terraformCommand = CommandNameDestroy
      then set (map Path (filter (\<lambda>m'. Path m \<in> set (Dependencies m')) modules))
      else set (Dependencies m))"

definition appliedPaths :: "TerraformModule list \<Rightarrow> string set" where
  "appliedPaths modules = set (map Path (filter AssumeAlreadyApplied modules))"

definition orderOf :: "string \<Rightarrow> DependencyOrder" where
  "orderOf terraformCommand =
     (if terraformCommand = CommandNameDestroy then ReverseOrder else NormalOrder)"

definition initialGraph :: "TerraformModule list \<Rightarrow> string \<Rightarrow> moduleGraph" where
  "initialGraph modules terraformCommand =
     map (\<lambda>m. (Path m, \<lparr>Module = m, Remaining = prerequisites modules terraformCommand m\<rparr>)) modules"

text \<open>The log of \<open>summarizePlanAllErrors\<close> for one module and its captured output.\<close>

definition moduleLog :: "TerraformModule \<Rightarrow> string \<Rightarrow> log_call list" where
  "moduleLog m output =
     (if output = [] then []
      else if Contains output ''Error running plan:''
            \<and> Contains output '': Resource 'data.terraform_remote_state.''
      then [Infoln output, Infof (remoteStateHint m)]
      else [Infoln output])"

text \<open>A cycle check that accepts a list of modules only when every module is listed after
  all its dependencies and no path is listed twice. It is used as an instance of a sound
  \<open>CheckForCycles\<close>.\<close>

fun listedAfterDependencies :: "string set \<Rightarrow> TerraformModule list \<Rightarrow> bool" where
  "listedAfterDependencies seen [] = True"
| "listedAfterDependencies seen (m # ms) =
     (set (Dependencies m) \<subseteq> seen \<and> Path m \<notin> seen
      \<and> listedAfterDependencies (insert (Path m) seen) ms)"

definition orderedCheck :: "TerraformModule list \<Rightarrow> error option" where
  "orderedCheck modules =
     (if listedAfterDependencies {} modules then None
      else Some (DependencyCycle (map Path modules)))"

section \<open>Example stacks\<close>

definition exampleOptions :: TerragruntOptions where
  "exampleOptions =
     \<lparr>TerraformCommand = ''apply'', TerraformCliArgs = [''apply''], OutputFolder = '''',
      RunAllAutoApprove = True, IgnoreDependencyOrder = False, Parallelism = 4\<rparr>"

definition exampleModule :: "string \<Rightarrow> string list \<Rightarrow> bool \<Rightarrow> TerraformModule" where
  "exampleModule p deps applied =
     \<lparr>Path = p, Dependencies = deps, ConfigDependenciesPaths = deps,
      AssumeAlreadyApplied = applied, ModuleOptions = exampleOptions\<rparr>"

definition moduleA :: TerraformModule where
  "moduleA = exampleModule ''A'' [] False"

definition moduleB :: TerraformModule where
  "moduleB = exampleModule ''B'' [''A''] False"

definition stackAB :: Stack where
  "stackAB = \<lparr>StackPath = ''/stack'', Modules = [moduleA, moduleB]\<rparr>"

definition cycleA :: TerraformModule where
  "cycleA = exampleModule ''A'' [''B''] False"

definition cycleB :: TerraformModule where
  "cycleB = exampleModule ''B'' [''A''] False"

definition stackCycle :: Stack where
  "stackCycle = \<lparr>StackPath = ''/stack'', Modules = [cycleA, cycleB]\<rparr>"

definition appliedA :: TerraformModule where
  "appliedA = exampleModule ''A'' [] True"

definition moduleC :: TerraformModule where
  "moduleC = exampleModule ''C'' [] False"

definition stackApplied :: Stack where
  "stackApplied = \<lparr>StackPath = ''/stack'', Modules = [appliedA, moduleB, moduleC]\<rparr>"

text \<open>
  A linear chain: module \<open>i\<close> has the path of \<open>i + 1\<close> letters and depends on module
  \<open>i - 1\<close>. \<open>chainGraph k n\<close> is the graph of the chain of \<open>n\<close> modules after \<open>k\<close>
  iterations of the loop in forward direction, \<open>chainPlan k n\<close> the groups of the modules
  from \<open>k\<close> to \<open>n - 1\<close>.
\<close>

definition chainPath :: "nat \<Rightarrow> string" where
  "chainPath i = replicate (Suc i) CHR ''m''"

definition chainModule :: "nat \<Rightarrow> TerraformModule" where
  "chainModule i = exampleModule (chainPath i) (if i = 0 then [] else [chainPath (i - 1)]) False"

definition chainStack :: "nat \<Rightarrow> Stack" where
  "chainStack n = \<lparr>StackPath = ''chain'', Modules = map chainModule [0..<n]\<rparr>"

definition chainPlan :: "nat \<Rightarrow> nat \<Rightarrow> runPlan" where
  "chainPlan k n = map (\<lambda>i. [chainModule i]) [k..<n]"

definition chainGraph :: "nat \<Rightarrow> nat \<Rightarrow> moduleGraph" where
  "chainGraph k n =
     map (\<lambda>i. (chainPath i,
                \<lparr>Module = chainModule i,
                 Remaining = (if i = k then {} else {chainPath (i - 1)})\<rparr>)) [k..<n]"

section \<open>One iteration of the loop\<close>

lemma scanModules_eq:
  "scanModules g = (deployOf g, map fst (filter isReady g), filter (\<lambda>e. \<not> isReady e) g)"
  by (induction g rule: scanModules.induct) (simp_all add: deployOf_def isReady_def)

lemma deleteDeps_eq: "deleteDeps removeDep deps = deps - set removeDep"
  unfolding deleteDeps_def
  by (induction removeDep arbitrary: deps) auto

lemma removeDeps_scan:
  "removeDeps (map fst (filter isReady g)) (filter (\<lambda>e. \<not> isReady e) g) = nextOf g"
  by (simp add: removeDeps_def nextOf_def deleteDeps_eq removedOf_def split_beta)

lemma groupLoop_unfold:
  "groupLoop c g gs =
     (if g \<noteq> [] \<and> length gs < c
      then groupLoop c (nextOf g)
             (if deployOf g \<noteq> [] then gs @ [sort_key Path (deployOf g)] else gs)
      else Some gs)"
  by (subst groupLoop.simps) (simp add: scanModules_eq removeDeps_scan)

lemma set_nextOf: "set (nextOf g) =
   (\<lambda>e. (fst e, (snd e)\<lparr>Remaining := Remaining (snd e) - removedOf g\<rparr>)) ` {e \<in> set g. \<not> isReady e}"
  by (auto simp: nextOf_def)

lemma map_fst_nextOf: "map fst (nextOf g) = map fst (filter (\<lambda>e. \<not> isReady e) g)"
  by (simp add: nextOf_def comp_def)

lemma graphKeys_nextOf: "graphKeys (nextOf g) = graphKeys g - removedOf g \<union> (fst ` {e \<in> set g. \<not> isReady e})"
  by (auto simp: graphKeys_def set_nextOf removedOf_def image_iff)

lemma wfGraph_nextOf: "wfGraph g \<Longrightarrow> wfGraph (nextOf g)"
  unfolding wfGraph_def
  by (auto simp: map_fst_nextOf distinct_map_filter set_nextOf)

lemma keys_nextOf_wf:
  "wfGraph g \<Longrightarrow> graphKeys (nextOf g) = graphKeys g - removedOf g"
proof -
  assume wf: "wfGraph g"
  have "fst e \<notin> removedOf g" if "e \<in> set g" "\<not> isReady e" for e
  proof
    assume "fst e \<in> removedOf g"
    then obtain e' where e': "e' \<in> set g" "isReady e'" "fst e' = fst e"
      by (auto simp: removedOf_def)
    from wf have "inj_on fst (set g)" by (simp add: wfGraph_def distinct_map)
    with e' that have "e' = e" by (auto dest: inj_onD)
    with e' that show False by simp
  qed
  moreover have "fst e \<in> removedOf g" if "e \<in> set g" "isReady e" for e
    using that by (auto simp: removedOf_def)
  ultimately show ?thesis
    by (auto simp: graphKeys_def set_nextOf image_iff) (metis fst_conv)+
qed

lemma closedGraph_nextOf: "wfGraph g \<Longrightarrow> closedGraph g \<Longrightarrow> closedGraph (nextOf g)"
proof -
  assume wf: "wfGraph g" and cl: "closedGraph g"
  show ?thesis
    unfolding closedGraph_def
  proof
    fix e' assume "e' \<in> set (nextOf g)"
    then obtain e where e: "e \<in> set g" "Remaining (snd e') = Remaining (snd e) - removedOf g"
      by (auto simp: set_nextOf)
    with cl have "Remaining (snd e) \<subseteq> graphKeys g" by (simp add: closedGraph_def)
    with e show "Remaining (snd e') \<subseteq> graphKeys (nextOf g)"
      by (auto simp: keys_nextOf_wf[OF wf])
  qed
qed

lemma graphRel_iff:
  "(p, d) \<in> graphRel g \<longleftrightarrow> (\<exists>e\<in>set g. fst e = p \<and> d \<in> Remaining (snd e))"
  by (auto simp: graphRel_def)

lemma graphRel_nextOf: "graphRel (nextOf g) \<subseteq> graphRel g"
proof
  fix x assume "x \<in> graphRel (nextOf g)"
  then have "(fst x, snd x) \<in> graphRel (nextOf g)" by simp
  then obtain e' where e': "e' \<in> set (nextOf g)" "fst e' = fst x" "snd x \<in> Remaining (snd e')"
    unfolding graphRel_iff by blast
  from e'(1) obtain e where "e \<in> set g" "fst e' = fst e" "Remaining (snd e') \<subseteq> Remaining (snd e)"
    by (auto simp: set_nextOf)
  with e' have "\<exists>e\<in>set g. fst e = fst x \<and> snd x \<in> Remaining (snd e)"
    by auto
  then have "(fst x, snd x) \<in> graphRel g"
    unfolding graphRel_iff .
  then show "x \<in> graphRel g" by simp
qed

lemma acyclic_nextOf: "acyclic (graphRel g) \<Longrightarrow> acyclic (graphRel (nextOf g))"
  by (rule acyclic_subset[OF _ graphRel_nextOf])

lemma exists_ready:
  assumes "g \<noteq> []" "closedGraph g" "acyclic (graphRel g)"
  shows "\<exists>e\<in>set g. Remaining (snd e) = {}"
proof -
  have "graphRel g \<subseteq> graphKeys g \<times> graphKeys g"
    using assms(2) by (auto simp: graphRel_def closedGraph_def graphKeys_def)
  then have "finite (graphRel g)"
    by (rule finite_subset) (simp add: graphKeys_def)
  then have wf: "wf ((graphRel g)\<inverse>)"
    using assms(3) by (rule finite_acyclic_wf_converse)
  from assms(1) obtain e0 where "e0 \<in> set g" by (cases g) auto
  then have "fst e0 \<in> graphKeys g" by (simp add: graphKeys_def)
  with wf obtain z where z: "z \<in> graphKeys g"
      and min: "\<And>y. (y, z) \<in> (graphRel g)\<inverse> \<Longrightarrow> y \<notin> graphKeys g"
    by (rule wfE_min) blast
  from z obtain e where e: "e \<in> set g" "fst e = z" by (auto simp: graphKeys_def)
  have "Remaining (snd e) = {}"
  proof (rule ccontr)
    assume "Remaining (snd e) \<noteq> {}"
    then obtain d where d: "d \<in> Remaining (snd e)" by blast
    with e have "(d, z) \<in> (graphRel g)\<inverse>" by (auto simp: graphRel_def)
    then have "d \<notin> graphKeys g" by (rule min)
    moreover from assms(2) e d have "d \<in> graphKeys g" by (auto simp: closedGraph_def)
    ultimately show False by simp
  qed
  with e show ?thesis by blast
qed

lemma length_nextOf_le: "length (nextOf g) \<le> length g"
  by (simp add: nextOf_def)

lemma progress:
  assumes "g \<noteq> []" "closedGraph g" "acyclic (graphRel g)"
  shows "length (nextOf g) < length g"
proof -
  from exists_ready[OF assms] obtain e where "e \<in> set g" "isReady e"
    by (auto simp: isReady_def)
  then show ?thesis
    unfolding nextOf_def by (simp add: length_filter_less)
qed

lemma planOrdered_mono:
  "planOrdered D' S' plan \<Longrightarrow> S' \<subseteq> T \<Longrightarrow>
   (\<forall>grp\<in>set plan. \<forall>m\<in>set grp. D (Path m) \<subseteq> D' (Path m) \<union> T) \<Longrightarrow>
   planOrdered D T plan"
proof (induction plan arbitrary: S' T)
  case Nil
  then show ?case by simp
next
  case (Cons grp rest)
  have "planOrdered D (T \<union> Path ` set grp) rest"
  proof (rule Cons.IH)
    show "planOrdered D' (S' \<union> Path ` set grp) rest" using Cons.prems(1) by simp
    show "S' \<union> Path ` set grp \<subseteq> T \<union> Path ` set grp" using Cons.prems(2) by auto
    show "\<forall>g\<in>set rest. \<forall>m\<in>set g. D (Path m) \<subseteq> D' (Path m) \<union> (T \<union> Path ` set grp)"
    proof (intro ballI)
      fix g m assume "g \<in> set rest" "m \<in> set g"
      with Cons.prems(3) have "D (Path m) \<subseteq> D' (Path m) \<union> T" by simp
      then show "D (Path m) \<subseteq> D' (Path m) \<union> (T \<union> Path ` set grp)" by blast
    qed
  qed
  moreover have "\<forall>m\<in>set grp. D (Path m) \<subseteq> T"
  proof
    fix m assume m: "m \<in> set grp"
    with Cons.prems(1) have "D' (Path m) \<subseteq> S'" by simp
    moreover from Cons.prems(3) m have "D (Path m) \<subseteq> D' (Path m) \<union> T" by simp
    ultimately show "D (Path m) \<subseteq> T" using Cons.prems(2) by blast
  qed
  ultimately show ?case by simp
qed

lemma wfGraph_inj: "wfGraph g \<Longrightarrow> e \<in> set g \<Longrightarrow> e' \<in> set g \<Longrightarrow> fst e' = fst e \<Longrightarrow> e' = e"
  unfolding wfGraph_def distinct_map by (auto dest: inj_onD)

lemma remainingOf_wf:
  "wfGraph g \<Longrightarrow> e \<in> set g \<Longrightarrow> remainingOf g (fst e) = Remaining (snd e)"
proof -
  assume wf: "wfGraph g" and e: "e \<in> set g"
  have "{e' \<in> set g. fst e' = fst e} = {e}"
    using wfGraph_inj[OF wf e] e by blast
  then show ?thesis by (simp add: remainingOf_def)
qed

lemma set_deployOf:
  "set (deployOf g) = (\<lambda>e. Module (snd e)) `
     {e \<in> set g. \<not> AssumeAlreadyApplied (Module (snd e)) \<and> Remaining (snd e) = {}}"
  by (simp add: deployOf_def)

lemma schedulable_split:
  "schedulable g = set (deployOf g) \<union> schedulable (nextOf g)"
proof -
  have 1: "schedulable (nextOf g) =
      (\<lambda>e. Module (snd e)) ` {e \<in> set g. \<not> isReady e}"
  proof -
    let ?f = "\<lambda>e. (fst e, (snd e)\<lparr>Remaining := Remaining (snd e) - removedOf g\<rparr>)"
    have "{e' \<in> ?f ` {e \<in> set g. \<not> isReady e}. \<not> AssumeAlreadyApplied (Module (snd e'))}
        = ?f ` {e \<in> set g. \<not> isReady e}"
      by (auto simp: isReady_def)
    then show ?thesis
      unfolding schedulable_def set_nextOf by (simp add: image_image)
  qed
  have 2: "{e \<in> set g. \<not> AssumeAlreadyApplied (Module (snd e))} =
      {e \<in> set g. \<not> AssumeAlreadyApplied (Module (snd e)) \<and> Remaining (snd e) = {}}
      \<union> {e \<in> set g. \<not> isReady e}"
    unfolding isReady_def by blast
  have "schedulable g = (\<lambda>e. Module (snd e)) `
      ({e \<in> set g. \<not> AssumeAlreadyApplied (Module (snd e)) \<and> Remaining (snd e) = {}}
        \<union> {e \<in> set g. \<not> isReady e})"
    by (simp only: schedulable_def 2)
  also have "\<dots> = set (deployOf g) \<union> schedulable (nextOf g)"
    by (simp only: 1 set_deployOf image_Un)
  finally show ?thesis .
qed

lemma removedOf_wf:
  "wfGraph g \<Longrightarrow> removedOf g = appliedKeys g \<union> Path ` set (deployOf g)"
proof -
  assume wf: "wfGraph g"
  then have p: "\<And>e. e \<in> set g \<Longrightarrow> Path (Module (snd e)) = fst e" by (simp add: wfGraph_def)
  have "Path ` set (deployOf g) =
      fst ` {e \<in> set g. \<not> AssumeAlreadyApplied (Module (snd e)) \<and> Remaining (snd e) = {}}"
    unfolding set_deployOf image_image
    by (rule image_cong) (simp_all add: p)
  moreover have "{e \<in> set g. isReady e} = {e \<in> set g. AssumeAlreadyApplied (Module (snd e))} \<union>
      {e \<in> set g. \<not> AssumeAlreadyApplied (Module (snd e)) \<and> Remaining (snd e) = {}}"
    unfolding isReady_def by blast
  ultimately show ?thesis
    by (simp add: removedOf_def appliedKeys_def image_Un)
qed

lemma distinct_deployOf: "wfGraph g \<Longrightarrow> distinct (map Path (deployOf g))"
proof -
  assume wf: "wfGraph g"
  then have p: "\<And>e. e \<in> set g \<Longrightarrow> Path (Module (snd e)) = fst e" by (simp add: wfGraph_def)
  have "map Path (deployOf g) =
        map fst (filter (\<lambda>e. \<not> AssumeAlreadyApplied (Module (snd e)) \<and> Remaining (snd e) = {}) g)"
    unfolding deployOf_def map_map
    by (rule map_cong) (simp_all add: p)
  moreover have "distinct (map fst (filter (\<lambda>e. \<not> AssumeAlreadyApplied (Module (snd e)) \<and> Remaining (snd e) = {}) g))"
    using wf by (simp add: wfGraph_def distinct_map_filter)
  ultimately show ?thesis by simp
qed

lemma deploy_remaining_empty:
  "wfGraph g \<Longrightarrow> m \<in> set (deployOf g) \<Longrightarrow> remainingOf g (Path m) = {}"
proof -
  assume wf: "wfGraph g" and "m \<in> set (deployOf g)"
  then obtain e where e: "e \<in> set g" "m = Module (snd e)" "Remaining (snd e) = {}"
    unfolding set_deployOf by blast
  with wf have "Path m = fst e" by (simp add: wfGraph_def)
  with remainingOf_wf[OF wf e(1)] e(3) show ?thesis by simp
qed

lemma nextOf_origin:
  assumes "e' \<in> set (nextOf g)"
  obtains e where "e \<in> set g" "\<not> isReady e" "fst e' = fst e" "Module (snd e') = Module (snd e)"
      "Remaining (snd e') = Remaining (snd e) - removedOf g"
proof -
  from assms obtain e where "e \<in> set g" "\<not> isReady e"
      "e' = (fst e, (snd e)\<lparr>Remaining := Remaining (snd e) - removedOf g\<rparr>)"
    unfolding set_nextOf by blast
  then show ?thesis by (intro that[of e]) simp_all
qed

lemma next_remaining:
  assumes wf: "wfGraph g" and m: "m \<in> schedulable (nextOf g)"
  shows "remainingOf g (Path m) \<subseteq> remainingOf (nextOf g) (Path m) \<union> removedOf g"
proof -
  from m obtain e' where e': "e' \<in> set (nextOf g)" "m = Module (snd e')"
    unfolding schedulable_def by blast
  from e'(1) obtain e where e: "e \<in> set g" "fst e' = fst e" "Module (snd e') = Module (snd e)"
      "Remaining (snd e') = Remaining (snd e) - removedOf g"
    by (rule nextOf_origin)
  have wf': "wfGraph (nextOf g)" using wf by (rule wfGraph_nextOf)
  from wf e e' have pm: "Path m = fst e" by (simp add: wfGraph_def)
  have "remainingOf g (fst e) = Remaining (snd e)" using wf e(1) by (rule remainingOf_wf)
  moreover have "remainingOf (nextOf g) (fst e') = Remaining (snd e')"
    using wf' e'(1) by (rule remainingOf_wf)
  ultimately show ?thesis using e pm by auto
qed

lemma appliedKeys_nextOf: "appliedKeys (nextOf g) = {}"
proof -
  have "\<not> AssumeAlreadyApplied (Module (snd e'))" if "e' \<in> set (nextOf g)" for e'
    using that by (rule nextOf_origin) (simp add: isReady_def)
  then show ?thesis by (auto simp: appliedKeys_def)
qed

lemma next_paths_not_removed:
  assumes wf: "wfGraph g" and m: "m \<in> schedulable (nextOf g)"
  shows "Path m \<notin> removedOf g"
proof -
  from m obtain e' where e': "e' \<in> set (nextOf g)" "m = Module (snd e')"
    unfolding schedulable_def by blast
  have wf': "wfGraph (nextOf g)" using wf by (rule wfGraph_nextOf)
  with e' have "Path m = fst e'" by (simp add: wfGraph_def)
  moreover from e'(1) have "fst e' \<in> graphKeys (nextOf g)" by (simp add: graphKeys_def)
  ultimately show ?thesis by (simp add: keys_nextOf_wf[OF wf])
qed

lemma groupLoop_empty: "groupLoop c [] gs = Some gs"
  by (subst groupLoop.simps) simp

lemma groupLoop_capped: "\<not> length gs < c \<Longrightarrow> groupLoop c g gs = Some gs"
  by (subst groupLoop.simps) simp

lemma groupLoop_continue:
  "g \<noteq> [] \<Longrightarrow> length gs < c \<Longrightarrow>
   groupLoop c g gs = groupLoop c (nextOf g)
     (if deployOf g \<noteq> [] then gs @ [sort_key Path (deployOf g)] else gs)"
  by (subst groupLoop.simps) (simp add: scanModules_eq removeDeps_scan)

lemma groupLoop_acyclic:
  assumes "wfGraph g" "closedGraph g" "acyclic (graphRel g)"
  shows "\<exists>new. groupLoop c g gs = Some (gs @ new)
      \<and> planOrdered (remainingOf g) (appliedKeys g) new
      \<and> distinct (map Path (concat new))
      \<and> set (concat new) \<subseteq> schedulable g
      \<and> (length (gs @ new) < c \<longrightarrow> set (concat new) = schedulable g)"
  using assms
proof (induction "length g" arbitrary: g gs rule: less_induct)
  case less
  note wf = less.prems(1) and cl = less.prems(2) and ac = less.prems(3)
  show ?case
  proof (cases "g \<noteq> [] \<and> length gs < c")
    case False
    then have run: "groupLoop c g gs = Some (gs @ [])"
      using groupLoop_empty[of c gs] groupLoop_capped[of gs c g] by auto
    have "length gs < c \<longrightarrow> schedulable g = {}"
      using False by (auto simp: schedulable_def)
    with run show ?thesis
      by (intro exI[of _ "[]"]) auto
  next
    case True
    let ?d = "deployOf g"
    let ?n = "nextOf g"
    let ?gs' = "if ?d \<noteq> [] then gs @ [sort_key Path ?d] else gs"
    have run: "groupLoop c g gs = groupLoop c ?n ?gs'"
      using True by (intro groupLoop_continue) simp_all
    have shorter: "length ?n < length g"
      using True cl ac by (intro progress) simp_all
    have wf': "wfGraph ?n" using wf by (rule wfGraph_nextOf)
    have cl': "closedGraph ?n" using wf cl by (rule closedGraph_nextOf)
    have ac': "acyclic (graphRel ?n)" using ac by (rule acyclic_nextOf)
    from less.hyps[OF shorter wf' cl' ac', of ?gs'] obtain new' where
      r: "groupLoop c ?n ?gs' = Some (?gs' @ new')"
      and ord: "planOrdered (remainingOf ?n) (appliedKeys ?n) new'"
      and dis: "distinct (map Path (concat new'))"
      and sub: "set (concat new') \<subseteq> schedulable ?n"
      and com: "length (?gs' @ new') < c \<longrightarrow> set (concat new') = schedulable ?n"
      by blast
    let ?new = "if ?d \<noteq> [] then sort_key Path ?d # new' else new'"
    have eq: "?gs' @ new' = gs @ ?new" by simp
    have rem: "removedOf g = appliedKeys g \<union> Path ` set ?d"
      using wf by (rule removedOf_wf)
    have ord0: "planOrdered (remainingOf g) (appliedKeys g \<union> Path ` set ?d) new'"
    proof (rule planOrdered_mono[OF ord])
      show "appliedKeys ?n \<subseteq> appliedKeys g \<union> Path ` set ?d"
        by (simp add: appliedKeys_nextOf)
      show "\<forall>grp\<in>set new'. \<forall>m\<in>set grp.
          remainingOf g (Path m) \<subseteq> remainingOf ?n (Path m) \<union> (appliedKeys g \<union> Path ` set ?d)"
      proof (intro ballI)
        fix grp m assume "grp \<in> set new'" "m \<in> set grp"
        then have "m \<in> set (concat new')" by auto
        with sub have "m \<in> schedulable ?n" by blast
        from next_remaining[OF wf this] show
          "remainingOf g (Path m) \<subseteq> remainingOf ?n (Path m) \<union> (appliedKeys g \<union> Path ` set ?d)"
          unfolding rem .
      qed
    qed
    have ord1: "planOrdered (remainingOf g) (appliedKeys g) ?new"
    proof (cases "?d = []")
      case True
      with ord0 show ?thesis by simp
    next
      case False
      have "\<forall>m\<in>set (sort_key Path ?d). remainingOf g (Path m) \<subseteq> appliedKeys g"
        using deploy_remaining_empty[OF wf] by simp
      with ord0 False show ?thesis by simp
    qed
    have disj: "Path ` set ?d \<inter> Path ` set (concat new') = {}"
    proof -
      have *: "Path m \<notin> Path ` set ?d" if "m \<in> set (concat new')" for m
      proof -
        from that sub have "m \<in> schedulable ?n" by blast
        from next_paths_not_removed[OF wf this] show ?thesis unfolding rem by simp
      qed
      show ?thesis
      proof (rule equals0I)
        fix x assume "x \<in> Path ` set ?d \<inter> Path ` set (concat new')"
        then obtain m where "m \<in> set (concat new')" "x = Path m" "x \<in> Path ` set ?d"
          by blast
        with * show False by simp
      qed
    qed
    have "mset (map Path (sort_key Path ?d)) = mset (map Path ?d)" by simp
    from mset_eq_imp_distinct_iff[OF this] distinct_deployOf[OF wf]
    have dsort: "distinct (map Path (sort_key Path ?d))" by blast
    have inter: "set (map Path (sort_key Path ?d)) \<inter> set (map Path (concat new')) = {}"
      using disj by simp
    have dis1: "distinct (map Path (concat ?new))"
    proof (cases "?d = []")
      case True
      with dis show ?thesis by simp
    next
      case False
      have "distinct (map Path (sort_key Path ?d) @ map Path (concat new'))"
        using dis dsort inter by (simp only: distinct_append)
      with False show ?thesis by simp
    qed
    have set1: "set (concat ?new) = set ?d \<union> set (concat new')"
      by auto
    have sub1: "set (concat ?new) \<subseteq> schedulable g"
      unfolding set1 using sub by (subst schedulable_split) blast
    have com1: "length (gs @ ?new) < c \<longrightarrow> set (concat ?new) = schedulable g"
    proof
      assume "length (gs @ ?new) < c"
      then have "length (?gs' @ new') < c" unfolding eq .
      with com have "set (concat new') = schedulable ?n" by blast
      then show "set (concat ?new) = schedulable g"
        unfolding set1 by (subst schedulable_split) simp
    qed
    have "groupLoop c g gs = Some (gs @ ?new)"
      using run r eq by simp
    with ord1 dis1 sub1 com1 show ?thesis by blast
  qed
qed

lemma mapStore_fresh: "k \<notin> fst ` set g \<Longrightarrow> mapStore k v g = g @ [(k, v)]"
  by (induction g) auto

lemma fold_mapStore:
  "distinct (map fst acc @ map Path ms) \<Longrightarrow>
   fold (\<lambda>m g. mapStore (Path m) (newRunningModule m) g) ms acc =
   acc @ map (\<lambda>m. (Path m, newRunningModule m)) ms"
proof (induction ms arbitrary: acc)
  case Nil
  then show ?case by simp
next
  case (Cons m ms)
  from Cons.prems have fresh: "Path m \<notin> fst ` set acc" by auto
  have "distinct (map fst (acc @ [(Path m, newRunningModule m)]) @ map Path ms)"
    using Cons.prems by auto
  from Cons.IH[OF this] show ?case
    by (simp add: mapStore_fresh[OF fresh])
qed

lemma nodes_of_modules:
  "distinct (map Path ms) \<Longrightarrow>
   fold (\<lambda>m g. mapStore (Path m) (newRunningModule m) g) ms [] =
   map (\<lambda>m. (Path m, newRunningModule m)) ms"
  using fold_mapStore[of "[]" ms] by simp

lemma dangling_none:
  "resolved ms \<Longrightarrow> danglingDependencies (map (\<lambda>m. (Path m, newRunningModule m)) ms) = []"
  unfolding danglingDependencies_def resolved_def
  by (auto simp: newRunningModule_def comp_def filter_empty_conv image_iff subset_iff)

lemma dependents_modules:
  "dependents (map (\<lambda>m. (Path m, newRunningModule m)) ms) p =
   Path ` {m' \<in> set ms. p \<in> set (Dependencies m')}"
proof -
  have "map fst (filter (\<lambda>(q, n). p \<in> set (Dependencies (Module n)))
          (map (\<lambda>m. (Path m, newRunningModule m)) ms)) =
        map Path (filter (\<lambda>m'. p \<in> set (Dependencies m')) ms)"
    by (induction ms) (simp_all add: newRunningModule_def)
  then show ?thesis
    unfolding dependents_def by simp
qed

lemma toRunningModules_ok:
  assumes "distinct (map Path ms)" "resolved ms"
  shows "toRunningModules ms (orderOf cmd) = Inr (initialGraph ms cmd)"
proof -
  let ?nodes = "map (\<lambda>m. (Path m, newRunningModule m)) ms"
  have "toRunningModules ms (orderOf cmd) = crossLinkDependencies ?nodes (orderOf cmd)"
    by (simp add: toRunningModules_def nodes_of_modules[OF assms(1)])
  also have "\<dots> = Inr (initialGraph ms cmd)"
    unfolding crossLinkDependencies_def dangling_none[OF assms(2)] initialGraph_def
    by (simp add: orderOf_def prerequisites_def dependents_modules)
       (simp add: newRunningModule_def)
  finally show ?thesis .
qed

lemma getModuleRunGraph_ok:
  assumes "distinct (map Path (Modules stack))" "resolved (Modules stack)"
  shows "getModuleRunGraph stack cmd =
         map_option Inr (groupLoop maxDepth (initialGraph (Modules stack) cmd) [])"
  using toRunningModules_ok[OF assms, of cmd]
  by (simp add: getModuleRunGraph_def orderOf_def split: if_splits)

lemma wfGraph_initial: "distinct (map Path ms) \<Longrightarrow> wfGraph (initialGraph ms cmd)"
  by (simp add: wfGraph_def initialGraph_def comp_def)

lemma graphKeys_initial: "graphKeys (initialGraph ms cmd) = Path ` set ms"
  by (simp add: graphKeys_def initialGraph_def image_image)

lemma prerequisites_closed: "resolved ms \<Longrightarrow> m \<in> set ms \<Longrightarrow> prerequisites ms cmd m \<subseteq> Path ` set ms"
  by (auto simp: prerequisites_def resolved_def)

lemma closedGraph_initial: "resolved ms \<Longrightarrow> closedGraph (initialGraph ms cmd)"
  unfolding closedGraph_def graphKeys_initial
  using prerequisites_closed by (auto simp: initialGraph_def)

lemma depRel_iff: "(p, d) \<in> depRel ms \<longleftrightarrow> (\<exists>m\<in>set ms. Path m = p \<and> d \<in> set (Dependencies m))"
  by (auto simp: depRel_def)

lemma graphRel_initial:
  "graphRel (initialGraph ms cmd) \<subseteq>
     (if cmd = CommandNameDestroy then (depRel ms)\<inverse> else depRel ms)"
proof
  fix x :: "string \<times> string"
  obtain p d where x: "x = (p, d)" by (cases x)
  assume "x \<in> graphRel (initialGraph ms cmd)"
  then have "\<exists>m\<in>set ms. Path m = p \<and> d \<in> prerequisites ms cmd m"
    unfolding x graphRel_iff by (simp add: initialGraph_def)
  then obtain m where m: "m \<in> set ms" "Path m = p" "d \<in> prerequisites ms cmd m" by blast
  show "x \<in> (if cmd = CommandNameDestroy then (depRel ms)\<inverse> else depRel ms)"
  proof (cases "cmd = CommandNameDestroy")
    case True
    with m(3) obtain m' where "m' \<in> set ms" "Path m' = d" "Path m \<in> set (Dependencies m')"
      by (auto simp: prerequisites_def)
    with m(2) have "(d, p) \<in> depRel ms" unfolding depRel_iff by blast
    with True show ?thesis by (simp add: x)
  next
    case False
    with m have "(p, d) \<in> depRel ms" unfolding depRel_iff by (auto simp: prerequisites_def)
    with False show ?thesis by (simp add: x)
  qed
qed

lemma acyclic_initial: "acyclic (depRel ms) \<Longrightarrow> acyclic (graphRel (initialGraph ms cmd))"
proof -
  assume "acyclic (depRel ms)"
  then have "acyclic (if cmd = CommandNameDestroy then (depRel ms)\<inverse> else depRel ms)"
    by simp
  then show ?thesis using graphRel_initial by (rule acyclic_subset)
qed


lemma appliedKeys_initial: "appliedKeys (initialGraph ms cmd) = appliedPaths ms"
proof -
  let ?f = "\<lambda>m. (Path m, \<lparr>Module = m, Remaining = prerequisites ms cmd m\<rparr>)"
  have "{e \<in> ?f ` set ms. AssumeAlreadyApplied (Module (snd e))} =
        ?f ` {m \<in> set ms. AssumeAlreadyApplied m}" by auto
  then show ?thesis
    by (simp add: appliedKeys_def appliedPaths_def initialGraph_def image_image)
qed



lemma sorted_deploy: "sorted (map Path (sort_key Path xs))"
  by (rule sorted_sort_key)

lemma groupLoop_shape:
  assumes "groupLoop c g gs = Some r"
  shows "\<exists>new. r = gs @ new \<and> [] \<notin> set new \<and> length r \<le> max c (length gs)
     \<and> (\<forall>grp\<in>set new. sorted (map Path grp))
     \<and> (\<forall>m\<in>set (concat new). \<not> AssumeAlreadyApplied m)"
  using assms
proof (induction c g gs r rule: groupLoop.raw_induct[rotated 1, consumes 1])
  case (1 loop c g gs r)
  show ?case
  proof (cases "0 < length g \<and> length gs < c")
    case False
    with 1(2) have "r = gs" by (simp split: if_splits)
    then show ?thesis by simp
  next
    case True
    let ?d = "deployOf g"
    let ?gs' = "if 0 < length ?d then gs @ [sort_key Path ?d] else gs"
    from True 1(2) have "loop c (nextOf g) ?gs' = Some r"
      by (simp add: scanModules_eq removeDeps_scan)
    from 1(1)[OF this] obtain new' where n: "r = ?gs' @ new'" "[] \<notin> set new'"
        "length r \<le> max c (length ?gs')" "\<forall>grp\<in>set new'. sorted (map Path grp)"
        "\<forall>m\<in>set (concat new'). \<not> AssumeAlreadyApplied m" by blast
    let ?new = "if 0 < length ?d then sort_key Path ?d # new' else new'"
    have a: "r = gs @ ?new" using n(1) by simp
    have "sort_key Path ?d \<noteq> []" if "?d \<noteq> []"
      using that length_sort[of Path ?d] by (metis length_0_conv)
    then have b: "[] \<notin> set ?new" using n(2) by auto
    have c: "length r \<le> max c (length gs)" using n(3) True by (auto split: if_splits)
    have d: "\<forall>grp\<in>set ?new. sorted (map Path grp)" using n(4) sorted_deploy by auto
    have "\<forall>m\<in>set ?d. \<not> AssumeAlreadyApplied m" by (auto simp: set_deployOf)
    then have e: "\<forall>m\<in>set (concat ?new). \<not> AssumeAlreadyApplied m" using n(5) by auto
    from a b c d e show ?thesis by blast
  qed
qed



lemma chainPath_inj [simp]: "chainPath i = chainPath j \<longleftrightarrow> i = j"
proof
  assume "chainPath i = chainPath j"
  then have "length (chainPath i) = length (chainPath j)" by simp
  then show "i = j" by (simp add: chainPath_def)
qed simp

lemma chain_distinct: "distinct (map Path (Modules (chainStack n)))"
  by (simp add: chainStack_def distinct_map inj_on_def chainModule_def exampleModule_def)

lemma chain_resolved: "resolved (Modules (chainStack n))"
proof -
  have "chainPath (i - 1) \<in> Path ` chainModule ` {0..<n}" if "i < n" for i
  proof -
    from that have "i - 1 \<in> {0..<n}" by simp
    then have "Path (chainModule (i - 1)) \<in> Path ` chainModule ` {0..<n}" by blast
    then show ?thesis by (simp add: chainModule_def exampleModule_def)
  qed
  then show ?thesis
    by (simp add: resolved_def chainStack_def chainModule_def exampleModule_def)
qed


lemma chain_initial:
  "cmd \<noteq> CommandNameDestroy \<Longrightarrow> initialGraph (Modules (chainStack n)) cmd = chainGraph 0 n"
  by (simp add: initialGraph_def chainStack_def chainGraph_def prerequisites_def chainModule_def exampleModule_def)

lemma chainGraph_Cons:
  "k < n \<Longrightarrow> chainGraph k n =
     (chainPath k, \<lparr>Module = chainModule k, Remaining = {}\<rparr>) #
     map (\<lambda>i. (chainPath i, \<lparr>Module = chainModule i, Remaining = {chainPath (i - 1)}\<rparr>)) [Suc k..<n]"
  by (simp add: chainGraph_def upt_conv_Cons)

lemma chain_deploy: "k < n \<Longrightarrow> deployOf (chainGraph k n) = [chainModule k]"
  by (simp add: chainGraph_Cons deployOf_def chainModule_def exampleModule_def filter_empty_conv)

lemma removedOf_list: "removedOf g = set (map fst (filter isReady g))"
  by (auto simp: removedOf_def)

lemma chain_removed: "k < n \<Longrightarrow> removedOf (chainGraph k n) = {chainPath k}"
proof -
  assume kn: "k < n"
  have "filter isReady (chainGraph k n) = [(chainPath k, \<lparr>Module = chainModule k, Remaining = {}\<rparr>)]"
    unfolding chainGraph_Cons[OF kn]
    by (simp add: isReady_def chainModule_def exampleModule_def filter_empty_conv)
  then show ?thesis by (simp add: removedOf_list)
qed

lemma chain_next: "k < n \<Longrightarrow> nextOf (chainGraph k n) = chainGraph (Suc k) n"
proof -
  assume kn: "k < n"
  have "filter (\<lambda>e. \<not> isReady e) (chainGraph k n) =
     map (\<lambda>i. (chainPath i, \<lparr>Module = chainModule i, Remaining = {chainPath (i - 1)}\<rparr>)) [Suc k..<n]"
    unfolding chainGraph_Cons[OF kn]
    by (simp add: isReady_def chainModule_def exampleModule_def filter_map comp_def)
  then show ?thesis
    unfolding nextOf_def chain_removed[OF kn]
    by (auto simp: chainGraph_def)
qed

lemma chain_loop:
  "groupLoop c (chainGraph k n) gs =
     Some (gs @ chainPlan k (min n (k + (c - length gs))))"
proof (induction "n - k" arbitrary: k gs)
  case 0
  then have "chainGraph k n = []" by (simp add: chainGraph_def)
  moreover from 0 have "chainPlan k (min n (k + (c - length gs))) = []"
    by (simp add: chainPlan_def)
  ultimately show ?case by (simp add: groupLoop_empty)
next
  case (Suc d)
  then have kn: "k < n" by simp
  show ?case
  proof (cases "length gs < c")
    case False
    then have "chainPlan k (min n (k + (c - length gs))) = []" by (simp add: chainPlan_def)
    with False show ?thesis by (simp add: groupLoop_capped)
  next
    case True
    have ne: "chainGraph k n \<noteq> []" using kn by (simp add: chainGraph_def)
    have "groupLoop c (chainGraph k n) gs =
          groupLoop c (chainGraph (Suc k) n) (gs @ [[chainModule k]])"
      using groupLoop_continue[OF ne True] by (simp add: chain_deploy[OF kn] chain_next[OF kn])
    also have "\<dots> = Some ((gs @ [[chainModule k]]) @
          chainPlan (Suc k) (min n (Suc k + (c - length (gs @ [[chainModule k]])))))"
      using Suc(2) by (intro Suc(1)) simp
    also have "(gs @ [[chainModule k]]) @
          chainPlan (Suc k) (min n (Suc k + (c - length (gs @ [[chainModule k]])))) =
          gs @ chainPlan k (min n (k + (c - length gs)))"
    proof -
      from True have e: "Suc k + (c - length (gs @ [[chainModule k]])) = k + (c - length gs)"
        by simp
      from True kn have "k < min n (k + (c - length gs))" by simp
      then have "[k..<min n (k + (c - length gs))] = k # [Suc k..<min n (k + (c - length gs))]"
        by (rule upt_conv_Cons)
      then have "chainPlan k (min n (k + (c - length gs))) =
          [chainModule k] # chainPlan (Suc k) (min n (k + (c - length gs)))"
        by (simp add: chainPlan_def)
      then show ?thesis by (simp only: e append_assoc append_Cons append_Nil)
    qed
    finally show ?thesis .
  qed
qed


lemma groupLoop_take:
  assumes "groupLoop c' g gs = Some full"
  shows "(\<exists>new. full = gs @ new) \<and>
         (\<forall>c. length gs \<le> c \<and> c \<le> c' \<longrightarrow> groupLoop c g gs = Some (take c full))"
  using assms
proof (induction c' g gs full rule: groupLoop.raw_induct[rotated 1, consumes 1])
  case (1 loop c' g gs full)
  show ?case
  proof (cases "0 < length g \<and> length gs < c'")
    case False
    with 1(2) have full: "full = gs" by (simp split: if_splits)
    have "groupLoop c g gs = Some (take c full)" if "length gs \<le> c" "c \<le> c'" for c
    proof (cases "g = []")
      case True
      with that full show ?thesis by (simp add: groupLoop_empty)
    next
      case False
      with \<open>\<not> (0 < length g \<and> length gs < c')\<close> that have "\<not> length gs < c" by simp
      with that full show ?thesis by (simp add: groupLoop_capped)
    qed
    with full show ?thesis by simp
  next
    case True
    let ?d = "deployOf g"
    let ?gs' = "if ?d \<noteq> [] then gs @ [sort_key Path ?d] else gs"
    from True 1(2) have "loop c' (nextOf g) ?gs' = Some full"
      by (simp add: scanModules_eq removeDeps_scan)
    from 1(1)[OF this] obtain new' where
      ext: "full = ?gs' @ new'" and
      ih: "\<And>c. length ?gs' \<le> c \<Longrightarrow> c \<le> c' \<Longrightarrow> groupLoop c (nextOf g) ?gs' = Some (take c full)"
      by blast
    from ext have pre: "\<exists>new. full = gs @ new" by (cases "?d \<noteq> []") simp_all
    have "groupLoop c g gs = Some (take c full)" if c: "length gs \<le> c" "c \<le> c'" for c
    proof (cases "length gs < c")
      case False
      with c have "length gs = c" by simp
      with pre have "take c full = gs" by auto
      with False show ?thesis by (simp add: groupLoop_capped)
    next
      case lt: True
      from True have "g \<noteq> []" by simp
      from groupLoop_continue[OF this lt]
      have "groupLoop c g gs = groupLoop c (nextOf g) ?gs'" .
      moreover from lt have "length ?gs' \<le> c" by simp
      ultimately show ?thesis using ih c(2) by simp
    qed
    with pre show ?thesis by blast
  qed
qed

lemma nextOf_stuck: "\<forall>e\<in>set g. \<not> isReady e \<Longrightarrow> nextOf g = g"
proof -
  assume a: "\<forall>e\<in>set g. \<not> isReady e"
  then have "removedOf g = {}" by (auto simp: removedOf_def)
  moreover from a have "filter (\<lambda>e. \<not> isReady e) g = g" by (simp add: filter_id_conv)
  ultimately show ?thesis by (simp add: nextOf_def map_idI)
qed

lemma deployOf_stuck: "\<forall>e\<in>set g. \<not> isReady e \<Longrightarrow> deployOf g = []"
  by (auto simp: deployOf_def isReady_def filter_empty_conv)

lemma stuck_never_returns:
  assumes "groupLoop c g gs = Some r"
  shows "\<not> (g \<noteq> [] \<and> (\<forall>e\<in>set g. \<not> isReady e) \<and> length gs < c)"
  using assms
proof (induction c g gs r rule: groupLoop.raw_induct[rotated 1, consumes 1])
  case (1 loop c g gs r)
  show ?case
  proof
    assume stuck: "g \<noteq> [] \<and> (\<forall>e\<in>set g. \<not> isReady e) \<and> length gs < c"
    then have cond: "0 < length g \<and> length gs < c" by simp
    from 1(2) cond have "loop c (nextOf g) (if deployOf g \<noteq> [] then gs @ [sort_key Path (deployOf g)] else gs) = Some r"
      by (simp add: scanModules_eq removeDeps_scan)
    with stuck have "loop c g gs = Some r"
      by (simp add: nextOf_stuck deployOf_stuck)
    from 1(1)[OF this] stuck show False by simp
  qed
qed

lemma stuck_diverges:
  "g \<noteq> [] \<Longrightarrow> \<forall>e\<in>set g. \<not> isReady e \<Longrightarrow> length gs < c \<Longrightarrow> groupLoop c g gs = None"
  using stuck_never_returns[of c g gs] by (cases "groupLoop c g gs") auto

lemma removedOf_perm: "mset g1 = mset g2 \<Longrightarrow> removedOf g1 = removedOf g2"
  using mset_eq_setD[of g1 g2] by (simp add: removedOf_def)

lemma filter_perm: "mset g1 = mset g2 \<Longrightarrow> mset (filter P g1) = mset (filter P g2)"
  by (simp only: mset_filter)

lemma nextOf_perm: "mset g1 = mset g2 \<Longrightarrow> mset (nextOf g1) = mset (nextOf g2)"
proof -
  assume p: "mset g1 = mset g2"
  have "mset (filter (\<lambda>e. \<not> isReady e) g1) = mset (filter (\<lambda>e. \<not> isReady e) g2)"
    using p by (rule filter_perm)
  then show ?thesis
    unfolding nextOf_def removedOf_perm[OF p] by (simp only: mset_map)
qed

lemma deployOf_perm: "mset g1 = mset g2 \<Longrightarrow> mset (deployOf g1) = mset (deployOf g2)"
proof -
  assume p: "mset g1 = mset g2"
  let ?P = "\<lambda>e. \<not> AssumeAlreadyApplied (Module (snd e)) \<and> Remaining (snd e) = {}"
  have "mset (filter ?P g1) = mset (filter ?P g2)"
    using p by (rule filter_perm)
  then show ?thesis
    unfolding deployOf_def by (simp only: mset_map)
qed

lemma wfGraph_perm: "mset g1 = mset g2 \<Longrightarrow> wfGraph g1 \<Longrightarrow> wfGraph g2"
proof -
  assume p: "mset g1 = mset g2" and wf: "wfGraph g1"
  from p have "mset (map fst g1) = mset (map fst g2)" by simp
  then have "distinct (map fst g1) \<longleftrightarrow> distinct (map fst g2)" by (rule mset_eq_imp_distinct_iff)
  moreover from p have "set g1 = set g2" by (rule mset_eq_setD)
  ultimately show ?thesis using wf by (simp add: wfGraph_def)
qed

lemma sorted_unique:
  assumes "mset xs = mset ys" "distinct (map Path ys)" "sorted (map Path xs)"
  shows "xs = sort_key Path ys"
proof -
  from assms(2) have "inj_on Path (set ys)" by (simp add: distinct_map)
  from sort_key_inj_key_eq[OF assms(1)[symmetric] this assms(3)] show ?thesis by simp
qed

lemma groupLoop_perm_Some:
  assumes "groupLoop c g1 gs = Some r"
  shows "\<forall>g2. mset g1 = mset g2 \<and> wfGraph g1 \<longrightarrow> groupLoop c g2 gs = Some r"
  using assms
proof (induction c g1 gs r rule: groupLoop.raw_induct[rotated 1, consumes 1])
  case (1 loop c g1 gs r)
  show ?case
  proof (intro allI impI)
    fix g2 assume a: "mset g1 = mset g2 \<and> wfGraph g1"
    then have p: "mset g1 = mset g2" and wf: "wfGraph g1" by simp_all
    from p have len: "length g1 = length g2" by (rule mset_eq_length)
    show "groupLoop c g2 gs = Some r"
    proof (cases "0 < length g1 \<and> length gs < c")
      case False
      with 1(2) have r: "r = gs" by (simp split: if_splits)
      from False len consider "g2 = []" | "\<not> length gs < c" by auto
      then show ?thesis
        by cases (simp_all add: r groupLoop_empty groupLoop_capped)
    next
      case True
      let ?gs' = "if deployOf g1 \<noteq> [] then gs @ [sort_key Path (deployOf g1)] else gs"
      from True 1(2) have "loop c (nextOf g1) ?gs' = Some r"
        by (simp add: scanModules_eq removeDeps_scan)
      from 1(1)[OF this] nextOf_perm[OF p] wfGraph_nextOf[OF wf]
      have r: "groupLoop c (nextOf g2) ?gs' = Some r" by blast
      have d: "mset (deployOf g1) = mset (deployOf g2)" using p by (rule deployOf_perm)
      have "sort_key Path (deployOf g1) = sort_key Path (deployOf g2)"
        by (rule sorted_unique) (simp_all add: d distinct_deployOf[OF wfGraph_perm[OF p wf]])
      moreover have "deployOf g1 = [] \<longleftrightarrow> deployOf g2 = []"
        using mset_eq_length[OF d] by (simp only: length_0_conv[symmetric])
      ultimately have "?gs' = (if deployOf g2 \<noteq> [] then gs @ [sort_key Path (deployOf g2)] else gs)"
        by simp
      with r have "groupLoop c (nextOf g2)
          (if deployOf g2 \<noteq> [] then gs @ [sort_key Path (deployOf g2)] else gs) = Some r"
        by simp
      moreover from True len have "g2 \<noteq> []" "length gs < c" by auto
      ultimately show ?thesis by (simp add: groupLoop_continue)
    qed
  qed
qed

lemma groupLoop_perm:
  assumes "mset g1 = mset g2" "wfGraph g1"
  shows "groupLoop c g1 gs = groupLoop c g2 gs"
proof (cases "groupLoop c g1 gs")
  case (Some r)
  with groupLoop_perm_Some[OF Some] assms show ?thesis by simp
next
  case None
  show ?thesis
  proof (cases "groupLoop c g2 gs")
    case (Some r)
    from groupLoop_perm_Some[OF Some] assms wfGraph_perm[OF assms]
    have "groupLoop c g1 gs = Some r" by simp
    with None show ?thesis by simp
  next
    case n2: None
    with None show ?thesis by simp
  qed
qed

lemma runsTo_groupLoop:
  "runsTo c g gs r \<Longrightarrow> wfGraph g \<Longrightarrow> groupLoop c g gs = Some r"
proof (induction rule: runsTo.induct)
  case (finished g gs c)
  then consider "g = []" | "\<not> length gs < c" by auto
  then show ?case
    by cases (simp_all add: groupLoop_empty groupLoop_capped)
next
  case (iteration g gs c visited currentIterationDeploy removeDep "next" sortedDeploy r)
  note p = \<open>mset visited = mset g\<close>
  have wfv: "wfGraph visited" using p[symmetric] \<open>wfGraph g\<close> by (rule wfGraph_perm)
  from iteration(4) have d: "currentIterationDeploy = deployOf visited"
    and rd: "removeDep = map fst (filter isReady visited)"
    and nx: "next = filter (\<lambda>e. \<not> isReady e) visited"
    unfolding scanModules_eq by simp_all
  have n: "removeDeps removeDep next = nextOf visited"
    unfolding rd nx by (rule removeDeps_scan)
  have s: "sortedDeploy = sort_key Path (deployOf visited)"
    using iteration(5,6) distinct_deployOf[OF wfv] unfolding d by (intro sorted_unique)
  have "groupLoop c (nextOf visited)
       (if deployOf visited \<noteq> [] then gs @ [sort_key Path (deployOf visited)] else gs) = Some r"
    using iteration.IH wfGraph_nextOf[OF wfv] unfolding n d s by simp
  moreover from iteration(1) p have "visited \<noteq> []" by auto
  ultimately have "groupLoop c visited gs = Some r"
    using iteration(2) by (simp add: groupLoop_continue)
  then show ?case using groupLoop_perm[OF p wfv] by simp
qed

lemma stackAB_distinct: "distinct (map Path (Modules stackAB))"
  by (simp add: stackAB_def moduleA_def moduleB_def exampleModule_def)

lemma stackAB_resolved: "resolved (Modules stackAB)"
  by (simp add: resolved_def stackAB_def moduleA_def moduleB_def exampleModule_def)






lemma stackCycle_graph:
  "initialGraph (Modules stackCycle) CommandNameApply =
     [(''A'', \<lparr>Module = cycleA, Remaining = {''B''}\<rparr>),
      (''B'', \<lparr>Module = cycleB, Remaining = {''A''}\<rparr>)]"
  by (simp add: initialGraph_def stackCycle_def cycleA_def cycleB_def exampleModule_def
      prerequisites_def CommandNameApply_def CommandNameDestroy_def)

text \<open>
  C2: the claim is that the grouping loop terminates on every graph, also on one with an
  undetected cycle. On the stack of two modules that depend on each other no node is ever
  ready, no group is appended, the number of groups stays below \<open>maxDepth\<close> and the
  graph stays non-empty: \<open>getModuleRunGraph\<close> never returns.
\<close>

theorem cycle_never_returns:
  "getModuleRunGraph stackCycle CommandNameApply = None"
proof -
  have d: "distinct (map Path (Modules stackCycle))"
    by (simp add: stackCycle_def cycleA_def cycleB_def exampleModule_def)
  have r: "resolved (Modules stackCycle)"
    by (simp add: resolved_def stackCycle_def cycleA_def cycleB_def exampleModule_def)
  let ?g = "initialGraph (Modules stackCycle) CommandNameApply"
  have "?g \<noteq> []" by (simp add: stackCycle_graph)
  moreover have "\<forall>e\<in>set ?g. \<not> isReady e"
    by (simp add: stackCycle_graph isReady_def cycleA_def cycleB_def exampleModule_def)
  moreover have "length ([] :: runPlan) < maxDepth" by (simp add: maxDepth_def)
  ultimately have "groupLoop maxDepth ?g [] = None" by (rule stuck_diverges)
  then show ?thesis by (simp add: getModuleRunGraph_ok[OF d r])
qed

lemma getModuleRunGraph_order:
  "getModuleRunGraph stack cmd =
     (case toRunningModules (Modules stack) (orderOf cmd) of
        Inl graphErr \<Rightarrow> Some (Inl graphErr)
      | Inr g \<Rightarrow> map_option Inr (groupLoop maxDepth g []))"
  by (simp add: getModuleRunGraph_def orderOf_def)

text \<open>
  C9: when the plan that the loop would build without the bound (with any larger bound
  \<open>c'\<close>) has more than \<open>maxDepth\<close> groups, \<open>getModuleRunGraph\<close> returns exactly its first
  \<open>maxDepth\<close> groups as a result without error; the groups after them, none of which is
  empty, are left out.
\<close>

theorem cap_truncates_silently:
  assumes "toRunningModules (Modules stack) (orderOf cmd) = Inr g"
      and "groupLoop c' g [] = Some full"
      and "maxDepth < length full"
  shows "getModuleRunGraph stack cmd = Some (Inr (take maxDepth full))
       \<and> length (take maxDepth full) = maxDepth
       \<and> drop maxDepth full \<noteq> []
       \<and> [] \<notin> set (drop maxDepth full)"
proof -
  from groupLoop_shape[OF assms(2)] have ne: "[] \<notin> set full" and "length full \<le> c'"
    by auto
  with assms(3) have "maxDepth \<le> c'" by simp
  with groupLoop_take[OF assms(2)] have "groupLoop maxDepth g [] = Some (take maxDepth full)"
    by simp
  then have "getModuleRunGraph stack cmd = Some (Inr (take maxDepth full))"
    by (simp add: getModuleRunGraph_order assms(1))
  moreover have "[] \<notin> set (drop maxDepth full)"
    using ne in_set_dropD by fastforce
  ultimately show ?thesis using assms(3) by simp
qed

text \<open>The theorem of C9 at the linear chain of 1001 modules.\<close>

theorem cap_truncates_silently_witness:
  "getModuleRunGraph (chainStack 1001) CommandNameApply =
     Some (Inr (take maxDepth (chainPlan 0 1001)))
   \<and> drop maxDepth (chainPlan 0 1001) \<noteq> []"
proof -
  have ne: "CommandNameApply \<noteq> CommandNameDestroy"
    by (simp add: CommandNameApply_def CommandNameDestroy_def)
  have g: "toRunningModules (Modules (chainStack 1001)) (orderOf CommandNameApply) =
      Inr (chainGraph 0 1001)"
    using toRunningModules_ok[OF chain_distinct chain_resolved, of 1001 CommandNameApply]
    by (simp add: chain_initial[OF ne])
  have full: "groupLoop 1001 (chainGraph 0 1001) [] = Some (chainPlan 0 1001)"
    using chain_loop[of 1001 0 1001 "[]"] by simp
  have len: "maxDepth < length (chainPlan 0 1001)"
    by (simp add: maxDepth_def chainPlan_def)
  from cap_truncates_silently[OF g full len] show ?thesis by simp
qed

lemma graphRel_initial_eq:
  assumes "resolved ms"
  shows "graphRel (initialGraph ms cmd) =
     (if cmd = CommandNameDestroy then (depRel ms)\<inverse> else depRel ms)"
proof (intro equalityI graphRel_initial subsetI)
  fix x :: "string \<times> string"
  obtain p d where x: "x = (p, d)" by (cases x)
  assume a: "x \<in> (if cmd = CommandNameDestroy then (depRel ms)\<inverse> else depRel ms)"
  have "\<exists>m\<in>set ms. Path m = p \<and> d \<in> prerequisites ms cmd m"
  proof (cases "cmd = CommandNameDestroy")
    case True
    with a x have "(d, p) \<in> depRel ms" by simp
    then obtain m' where m': "m' \<in> set ms" "Path m' = d" "p \<in> set (Dependencies m')"
      unfolding depRel_iff by blast
    with assms obtain m where m: "m \<in> set ms" "Path m = p"
      unfolding resolved_def by blast
    with m' have "d \<in> set (map Path (filter (\<lambda>m'. Path m \<in> set (Dependencies m')) ms))"
      by auto
    with True m show ?thesis unfolding prerequisites_def by auto
  next
    case False
    with a x have "(p, d) \<in> depRel ms" by simp
    with False show ?thesis unfolding depRel_iff by (auto simp: prerequisites_def)
  qed
  then have "(p, d) \<in> graphRel (initialGraph ms cmd)"
    unfolding graphRel_iff by (simp add: initialGraph_def)
  then show "x \<in> graphRel (initialGraph ms cmd)" by (simp add: x)
qed

lemma stackAB_forward:
  "cmd \<noteq> CommandNameDestroy \<Longrightarrow> initialGraph (Modules stackAB) cmd =
     [(''A'', \<lparr>Module = moduleA, Remaining = {}\<rparr>),
      (''B'', \<lparr>Module = moduleB, Remaining = {''A''}\<rparr>)]"
  by (simp add: initialGraph_def stackAB_def moduleA_def moduleB_def exampleModule_def
      prerequisites_def)

lemma stackAB_reverse:
  "initialGraph (Modules stackAB) CommandNameDestroy =
     [(''A'', \<lparr>Module = moduleA, Remaining = {''B''}\<rparr>),
      (''B'', \<lparr>Module = moduleB, Remaining = {}\<rparr>)]"
  by (auto simp: initialGraph_def stackAB_def moduleA_def moduleB_def exampleModule_def
      prerequisites_def)

lemma loopAB_forward:
  "groupLoop maxDepth
     [(''A'', \<lparr>Module = moduleA, Remaining = {}\<rparr>),
      (''B'', \<lparr>Module = moduleB, Remaining = {''A''}\<rparr>)] [] = Some [[moduleA], [moduleB]]"
  by code_simp

lemma loopAB_reverse:
  "groupLoop maxDepth
     [(''A'', \<lparr>Module = moduleA, Remaining = {''B''}\<rparr>),
      (''B'', \<lparr>Module = moduleB, Remaining = {}\<rparr>)] [] = Some [[moduleB], [moduleA]]"
  by code_simp

text \<open>
  C5: \<open>getModuleRunGraph\<close> builds the graph in \<open>ReverseOrder\<close> for the command
  \<open>destroy\<close> and in \<open>NormalOrder\<close> for every other command; on a stack with distinct
  paths and resolved dependencies the edges of the graph are the declared dependencies for
  \<open>NormalOrder\<close> and their converse for \<open>ReverseOrder\<close>. For the modules \<open>A\<close> and
  \<open>B\<close>, \<open>B\<close> depending on \<open>A\<close>, the plan is \<open>[[A], [B]]\<close> for every command other than
  \<open>destroy\<close> and \<open>[[B], [A]]\<close> for \<open>destroy\<close>.
\<close>

theorem direction_by_command:
  "(distinct (map Path (Modules stack)) \<and> resolved (Modules stack) \<longrightarrow>
      (\<exists>g. toRunningModules (Modules stack)
              (if cmd = CommandNameDestroy then ReverseOrder else NormalOrder) = Inr g
         \<and> getModuleRunGraph stack cmd = map_option Inr (groupLoop maxDepth g [])
         \<and> graphRel g = (if cmd = CommandNameDestroy then (depRel (Modules stack))\<inverse>
                          else depRel (Modules stack))))
   \<and> getModuleRunGraph stackAB CommandNameDestroy = Some (Inr [[moduleB], [moduleA]])
   \<and> (cmd \<noteq> CommandNameDestroy \<longrightarrow>
        getModuleRunGraph stackAB cmd = Some (Inr [[moduleA], [moduleB]]))"
proof (intro conjI impI)
  assume a: "distinct (map Path (Modules stack)) \<and> resolved (Modules stack)"
  then have d: "distinct (map Path (Modules stack))" and r: "resolved (Modules stack)"
    by simp_all
  from toRunningModules_ok[OF d r, of cmd] getModuleRunGraph_ok[OF d r, of cmd]
    graphRel_initial_eq[OF r, of cmd]
  show "\<exists>g. toRunningModules (Modules stack)
              (if cmd = CommandNameDestroy then ReverseOrder else NormalOrder) = Inr g
         \<and> getModuleRunGraph stack cmd = map_option Inr (groupLoop maxDepth g [])
         \<and> graphRel g = (if cmd = CommandNameDestroy then (depRel (Modules stack))\<inverse>
                          else depRel (Modules stack))"
    unfolding orderOf_def by blast
next
  show "getModuleRunGraph stackAB CommandNameDestroy = Some (Inr [[moduleB], [moduleA]])"
    by (simp add: getModuleRunGraph_ok[OF stackAB_distinct stackAB_resolved]
        stackAB_reverse loopAB_reverse)
next
  assume "cmd \<noteq> CommandNameDestroy"
  then show "getModuleRunGraph stackAB cmd = Some (Inr [[moduleA], [moduleB]])"
    by (simp add: getModuleRunGraph_ok[OF stackAB_distinct stackAB_resolved]
        stackAB_forward loopAB_forward)
qed

text \<open>The theorem of C5 at the stack of \<open>A\<close> and \<open>B\<close> and the command \<open>apply\<close>.\<close>

theorem direction_by_command_witness:
  "getModuleRunGraph stackAB CommandNameApply = Some (Inr [[moduleA], [moduleB]])
   \<and> getModuleRunGraph stackAB CommandNameDestroy = Some (Inr [[moduleB], [moduleA]])
   \<and> (\<exists>g. toRunningModules (Modules stackAB) NormalOrder = Inr g
        \<and> graphRel g = depRel (Modules stackAB))"
proof -
  have ne: "CommandNameApply \<noteq> CommandNameDestroy"
    by (simp add: CommandNameApply_def CommandNameDestroy_def)
  from direction_by_command[of stackAB CommandNameApply] ne stackAB_distinct stackAB_resolved
  show ?thesis by auto
qed

lemma mapStore_keys:
  "map fst (mapStore k v g) = (if k \<in> fst ` set g then map fst g else map fst g @ [k])"
proof (induction g)
  case Nil
  then show ?case by simp
next
  case (Cons e g)
  obtain k' v' where e: "e = (k', v')" by (cases e)
  show ?case
  proof (cases "k = k'")
    case True
    then show ?thesis by (simp add: e)
  next
    case False
    then show ?thesis using Cons.IH by (simp add: e)
  qed
qed

lemma mapStore_entries: "e \<in> set (mapStore k v g) \<Longrightarrow> e = (k, v) \<or> e \<in> set g"
  by (induction g) (auto split: if_splits)

lemma nodes_wf:
  "wfGraph acc \<Longrightarrow>
   wfGraph (fold (\<lambda>m g. mapStore (Path m) (newRunningModule m) g) ms acc)"
proof (induction ms arbitrary: acc)
  case Nil
  then show ?case by simp
next
  case (Cons m ms)
  let ?acc = "mapStore (Path m) (newRunningModule m) acc"
  have "distinct (map fst ?acc)"
    using Cons.prems by (auto simp: mapStore_keys wfGraph_def)
  moreover have "\<forall>e\<in>set ?acc. Path (Module (snd e)) = fst e"
  proof
    fix e assume "e \<in> set ?acc"
    then have "e = (Path m, newRunningModule m) \<or> e \<in> set acc" by (rule mapStore_entries)
    then show "Path (Module (snd e)) = fst e"
      using Cons.prems by (auto simp: wfGraph_def newRunningModule_def)
  qed
  ultimately have "wfGraph ?acc" by (simp add: wfGraph_def)
  from Cons.IH[OF this] show ?case by simp
qed

lemma toRunningModules_wfGraph:
  assumes "toRunningModules ms ord = Inr g"
  shows "wfGraph g"
proof -
  let ?nodes = "fold (\<lambda>m g. mapStore (Path m) (newRunningModule m) g) ms []"
  let ?f = "\<lambda>(p, n). (p, n\<lparr>Remaining :=
                 (case ord of
                    NormalOrder \<Rightarrow> set (Dependencies (Module n))
                  | ReverseOrder \<Rightarrow> dependents ?nodes p
                  | IgnoreOrder \<Rightarrow> {})\<rparr>)"
  have wf: "wfGraph ?nodes" by (rule nodes_wf) (simp add: wfGraph_def)
  from assms have "crossLinkDependencies ?nodes ord = Inr g"
    by (simp add: toRunningModules_def)
  then have g: "g = map ?f ?nodes"
    by (simp add: crossLinkDependencies_def split: list.splits prod.splits)
  have "map fst g = map fst ?nodes" unfolding g by (simp add: split_beta comp_def)
  moreover have "\<forall>e\<in>set g. Path (Module (snd e)) = fst e"
    unfolding g using wf by (auto simp: wfGraph_def)
  ultimately show ?thesis using wf by (simp add: wfGraph_def)
qed

lemma groupLoop_groups_distinct:
  assumes "groupLoop c g gs = Some r"
  shows "wfGraph g \<longrightarrow> (\<exists>new. r = gs @ new \<and> (\<forall>grp\<in>set new. distinct (map Path grp)))"
  using assms
proof (induction c g gs r rule: groupLoop.raw_induct[rotated 1, consumes 1])
  case (1 loop c g gs r)
  show ?case
  proof
    assume wf: "wfGraph g"
    show "\<exists>new. r = gs @ new \<and> (\<forall>grp\<in>set new. distinct (map Path grp))"
    proof (cases "0 < length g \<and> length gs < c")
      case False
      with 1(2) have "r = gs" by (simp split: if_splits)
      then show ?thesis by simp
    next
      case True
      let ?d = "deployOf g"
      let ?gs' = "if ?d \<noteq> [] then gs @ [sort_key Path ?d] else gs"
      from True 1(2) have "loop c (nextOf g) ?gs' = Some r"
        by (simp add: scanModules_eq removeDeps_scan)
      from 1(1)[OF this] wfGraph_nextOf[OF wf] obtain new' where
        n: "r = ?gs' @ new'" "\<forall>grp\<in>set new'. distinct (map Path grp)" by blast
      have "mset (map Path (sort_key Path ?d)) = mset (map Path ?d)" by simp
      from mset_eq_imp_distinct_iff[OF this] distinct_deployOf[OF wf]
      have ds: "distinct (map Path (sort_key Path ?d))" by blast
      let ?new = "if ?d \<noteq> [] then sort_key Path ?d # new' else new'"
      have "r = gs @ ?new" using n(1) by simp
      moreover have "\<forall>grp\<in>set ?new. distinct (map Path grp)" using n(2) ds by simp
      ultimately show ?thesis by blast
    qed
  qed
qed

lemma groupLoop_runsTo:
  assumes "groupLoop c g gs = Some r"
  shows "runsTo c g gs r"
  using assms
proof (induction c g gs r rule: groupLoop.raw_induct[rotated 1, consumes 1])
  case (1 loop c g gs r)
  show ?case
  proof (cases "0 < length g \<and> length gs < c")
    case False
    with 1(2) have "r = gs" by (simp split: if_splits)
    with False show ?thesis by (simp add: runsTo.finished)
  next
    case True
    let ?d = "deployOf g"
    let ?rd = "map fst (filter isReady g)"
    let ?nx = "filter (\<lambda>e. \<not> isReady e) g"
    from True 1(2) have
      "loop c (removeDeps ?rd ?nx) (if 0 < length ?d then gs @ [sort_key Path ?d] else gs) = Some r"
      by (simp add: scanModules_eq)
    from 1(1)[OF this] have run:
      "runsTo c (removeDeps ?rd ?nx) (if 0 < length ?d then gs @ [sort_key Path ?d] else gs) r" .
    show ?thesis
    proof (rule runsTo.iteration)
      show "0 < length g" using True by simp
      show "length gs < c" using True by simp
      show "mset g = mset g" by (rule refl)
      show "scanModules g = (?d, ?rd, ?nx)" by (rule scanModules_eq)
      show "mset (sort_key Path ?d) = mset ?d" by (rule mset_sort)
      show "sorted (map Path (sort_key Path ?d))" by (rule sorted_sort_key)
      show "runsTo c (removeDeps ?rd ?nx)
          (if 0 < length ?d then gs @ [sort_key Path ?d] else gs) r" by (rule run)
    qed
  qed
qed

text \<open>
  C4: \<open>runsTo\<close> describes every run of the loop that Go permits: each iteration may visit
  the entries of the map in any order, and \<open>sort.Slice\<close> may return any arrangement of the
  group that is sorted by path. For every stack for which the graph is built, every such
  run from every enumeration of the graph returns the same plan, which is the plan of
  \<open>getModuleRunGraph\<close>, and the paths of every group are strictly ascending.
\<close>

theorem runPlan_deterministic:
  assumes "toRunningModules (Modules stack) (orderOf cmd) = Inr g"
      and "mset g1 = mset g" and "runsTo maxDepth g1 [] plan1"
      and "mset g2 = mset g" and "runsTo maxDepth g2 [] plan2"
  shows "plan1 = plan2
       \<and> getModuleRunGraph stack cmd = Some (Inr plan1)
       \<and> (\<forall>grp\<in>set plan1. sorted_wrt (<) (map Path grp))"
proof -
  have wf: "wfGraph g" using assms(1) by (rule toRunningModules_wfGraph)
  have wf1: "wfGraph g1" using assms(2)[symmetric] wf by (rule wfGraph_perm)
  have wf2: "wfGraph g2" using assms(4)[symmetric] wf by (rule wfGraph_perm)
  have r1: "groupLoop maxDepth g1 [] = Some plan1" using assms(3) wf1 by (rule runsTo_groupLoop)
  have r2: "groupLoop maxDepth g2 [] = Some plan2" using assms(5) wf2 by (rule runsTo_groupLoop)
  from r1 groupLoop_perm[OF assms(2) wf1] have r: "groupLoop maxDepth g [] = Some plan1" by simp
  moreover from r2 groupLoop_perm[OF assms(4) wf2] have "groupLoop maxDepth g [] = Some plan2"
    by simp
  ultimately have eq: "plan1 = plan2" by simp
  have res: "getModuleRunGraph stack cmd = Some (Inr plan1)"
    using r by (simp add: getModuleRunGraph_order assms(1))
  from groupLoop_shape[OF r] have s: "\<forall>grp\<in>set plan1. sorted (map Path grp)" by auto
  from groupLoop_groups_distinct[OF r] wf have d: "\<forall>grp\<in>set plan1. distinct (map Path grp)"
    by auto
  from s d have "\<forall>grp\<in>set plan1. sorted_wrt (<) (map Path grp)"
    by (simp add: strict_sorted_iff)
  with eq res show ?thesis by simp
qed

text \<open>
  The theorem of C4 at the stack of \<open>A\<close> and \<open>B\<close>: one run visits the map in the order
  \<open>A, B\<close>, the other in the order \<open>B, A\<close>.
\<close>

theorem runPlan_deterministic_witness:
  "runsTo maxDepth
     [(''B'', \<lparr>Module = moduleB, Remaining = {''A''}\<rparr>),
      (''A'', \<lparr>Module = moduleA, Remaining = {}\<rparr>)] [] [[moduleA], [moduleB]]
   \<and> getModuleRunGraph stackAB CommandNameApply = Some (Inr [[moduleA], [moduleB]])"
proof -
  let ?g = "[(''A'', \<lparr>Module = moduleA, Remaining = {}\<rparr>),
             (''B'', \<lparr>Module = moduleB, Remaining = {''A''}\<rparr>)]"
  let ?g' = "[(''B'', \<lparr>Module = moduleB, Remaining = {''A''}\<rparr>),
              (''A'', \<lparr>Module = moduleA, Remaining = {}\<rparr>)]"
  have ne: "CommandNameApply \<noteq> CommandNameDestroy"
    by (simp add: CommandNameApply_def CommandNameDestroy_def)
  have g: "toRunningModules (Modules stackAB) (orderOf CommandNameApply) = Inr ?g"
    using toRunningModules_ok[OF stackAB_distinct stackAB_resolved, of CommandNameApply]
    by (simp add: stackAB_forward[OF ne])
  have "groupLoop maxDepth ?g' [] = Some [[moduleA], [moduleB]]" by code_simp
  then have r2: "runsTo maxDepth ?g' [] [[moduleA], [moduleB]]" by (rule groupLoop_runsTo)
  have r1: "runsTo maxDepth ?g [] [[moduleA], [moduleB]]"
    using loopAB_forward by (rule groupLoop_runsTo)
  have p: "mset ?g' = mset ?g" by (simp add: add_mset_commute)
  from runPlan_deterministic[OF g refl r1 p r2] r2
  show ?thesis by simp
qed

lemma getModuleRunGraph_Inr:
  assumes "getModuleRunGraph stack cmd = Some (Inr plan)"
  obtains g where "toRunningModules (Modules stack) (orderOf cmd) = Inr g"
    and "groupLoop maxDepth g [] = Some plan"
  using assms unfolding getModuleRunGraph_order
  by (cases "toRunningModules (Modules stack) (orderOf cmd)") auto

lemma set_deployOf_initial:
  "set (deployOf (initialGraph ms cmd)) =
     {m \<in> set ms. \<not> AssumeAlreadyApplied m \<and> prerequisites ms cmd m = {}}"
proof -
  let ?f = "\<lambda>m. (Path m, \<lparr>Module = m, Remaining = prerequisites ms cmd m\<rparr>)"
  have "{e \<in> ?f ` set ms. \<not> AssumeAlreadyApplied (Module (snd e)) \<and> Remaining (snd e) = {}} =
        ?f ` {m \<in> set ms. \<not> AssumeAlreadyApplied m \<and> prerequisites ms cmd m = {}}" by auto
  then show ?thesis
    unfolding set_deployOf by (simp add: initialGraph_def image_image)
qed

lemma stackApplied_distinct: "distinct (map Path (Modules stackApplied))"
  by (simp add: stackApplied_def appliedA_def moduleB_def moduleC_def exampleModule_def)

lemma stackApplied_resolved: "resolved (Modules stackApplied)"
  by (simp add: resolved_def stackApplied_def appliedA_def moduleB_def moduleC_def
      exampleModule_def)

lemma stackApplied_acyclic: "acyclic (depRel (Modules stackApplied))"
proof (rule acyclicI_order[where f = "\<lambda>p. if p = ''A'' then (0::nat) else 1"])
  fix a b assume "(a, b) \<in> depRel (Modules stackApplied)"
  then have "a = ''B''" "b = ''A''"
    by (auto simp: depRel_iff stackApplied_def appliedA_def moduleB_def moduleC_def
        exampleModule_def)
  then show "(if b = ''A'' then (0::nat) else 1) < (if a = ''A'' then 0 else 1)" by simp
qed

lemma stackApplied_graph:
  "initialGraph (Modules stackApplied) CommandNameApply =
     [(''A'', \<lparr>Module = appliedA, Remaining = {}\<rparr>),
      (''B'', \<lparr>Module = moduleB, Remaining = {''A''}\<rparr>),
      (''C'', \<lparr>Module = moduleC, Remaining = {}\<rparr>)]"
  by (simp add: initialGraph_def stackApplied_def appliedA_def moduleB_def moduleC_def
      exampleModule_def prerequisites_def CommandNameApply_def CommandNameDestroy_def)

lemma loopApplied:
  "groupLoop maxDepth
     [(''A'', \<lparr>Module = appliedA, Remaining = {}\<rparr>),
      (''B'', \<lparr>Module = moduleB, Remaining = {''A''}\<rparr>),
      (''C'', \<lparr>Module = moduleC, Remaining = {}\<rparr>)] [] = Some [[moduleC], [moduleB]]"
  by code_simp

lemma stackApplied_plan:
  "getModuleRunGraph stackApplied CommandNameApply = Some (Inr [[moduleC], [moduleB]])"
  by (simp add: getModuleRunGraph_ok[OF stackApplied_distinct stackApplied_resolved]
      stackApplied_graph loopApplied)

lemma toRunningModules_initial:
  assumes "distinct (map Path ms)" "toRunningModules ms (orderOf cmd) = Inr g"
  shows "g = initialGraph ms cmd"
proof -
  let ?nodes = "map (\<lambda>m. (Path m, newRunningModule m)) ms"
  from assms(2) have "crossLinkDependencies ?nodes (orderOf cmd) = Inr g"
    by (simp add: toRunningModules_def nodes_of_modules[OF assms(1)])
  then have "g = map (\<lambda>(p, n). (p, n\<lparr>Remaining :=
                 (case orderOf cmd of
                    NormalOrder \<Rightarrow> set (Dependencies (Module n))
                  | ReverseOrder \<Rightarrow> dependents ?nodes p
                  | IgnoreOrder \<Rightarrow> {})\<rparr>)) ?nodes"
    by (simp add: crossLinkDependencies_def split: list.splits prod.splits)
  also have "\<dots> = initialGraph ms cmd"
    unfolding initialGraph_def
    by (simp add: orderOf_def prerequisites_def dependents_modules)
       (simp add: newRunningModule_def)
  finally show ?thesis .
qed

lemma second_iteration_position:
  assumes d: "distinct (map Path ms)"
    and b: "b \<in> set ms" "\<not> AssumeAlreadyApplied b"
    and p: "prerequisites ms cmd b \<noteq> {}" "prerequisites ms cmd b \<subseteq> appliedPaths ms"
    and c: "2 \<le> c"
    and run: "groupLoop c (initialGraph ms cmd) [] = Some plan"
  shows "(if deployOf (initialGraph ms cmd) \<noteq> [] then 1 else 0) < length plan
     \<and> b \<in> set (plan ! (if deployOf (initialGraph ms cmd) \<noteq> [] then 1 else 0))"
proof -
  let ?g0 = "initialGraph ms cmd"
  let ?g1 = "nextOf ?g0"
  let ?g2 = "nextOf ?g1"
  let ?gs1 = "if deployOf ?g0 \<noteq> [] then [] @ [sort_key Path (deployOf ?g0)] else []"
  let ?gs2 = "if deployOf ?g1 \<noteq> [] then ?gs1 @ [sort_key Path (deployOf ?g1)] else ?gs1"
  let ?k = "if deployOf ?g0 \<noteq> [] then 1 else 0 :: nat"
  have wf0: "wfGraph ?g0" using d by (rule wfGraph_initial)
  let ?e = "(Path b, \<lparr>Module = b, Remaining = prerequisites ms cmd b\<rparr>)"
  have e: "?e \<in> set ?g0" using b(1) by (simp add: initialGraph_def)
  have nr: "\<not> isReady ?e" using b(2) p(1) by (simp add: isReady_def)
  have "prerequisites ms cmd b \<subseteq> removedOf ?g0"
    using p(2) by (simp add: removedOf_wf[OF wf0] appliedKeys_initial le_supI1)
  then have rem: "prerequisites ms cmd b - removedOf ?g0 = {}" by blast
  let ?e' = "(Path b, \<lparr>Module = b, Remaining = {}\<rparr>)"
  have "(fst ?e, (snd ?e)\<lparr>Remaining := Remaining (snd ?e) - removedOf ?g0\<rparr>) \<in> set ?g1"
    unfolding set_nextOf using e nr by blast
  then have e': "?e' \<in> set ?g1" by (simp add: rem)
  then have "Module (snd ?e') \<in> set (deployOf ?g1)"
    unfolding set_deployOf using b(2) by (intro imageI) simp
  then have bd: "b \<in> set (deployOf ?g1)" by simp
  then have d1: "deployOf ?g1 \<noteq> []" by auto
  have len1: "length ?gs1 = ?k" by simp
  have step1: "groupLoop c ?g0 [] = groupLoop c ?g1 ?gs1"
    using e c by (intro groupLoop_continue) auto
  have step2: "groupLoop c ?g1 ?gs1 = groupLoop c ?g2 ?gs2"
    using e' c by (intro groupLoop_continue) auto
  from run step1 step2 have "groupLoop c ?g2 ?gs2 = Some plan" by simp
  from groupLoop_shape[OF this] obtain new where plan: "plan = ?gs2 @ new" by blast
  have gs2: "?gs2 = ?gs1 @ [sort_key Path (deployOf ?g1)]" using d1 by simp
  have "plan ! ?k = sort_key Path (deployOf ?g1)"
    unfolding plan gs2 using len1 by (simp add: nth_append)
  moreover have "?k < length plan" unfolding plan gs2 using len1 by simp
  ultimately show ?thesis using bd by simp
qed

lemma runPlan_exists:
  assumes "distinct (map Path (Modules stack))" "resolved (Modules stack)"
      "acyclic (depRel (Modules stack))"
  shows "\<exists>plan. getModuleRunGraph stack cmd = Some (Inr plan)"
proof -
  let ?g = "initialGraph (Modules stack) cmd"
  have wf: "wfGraph ?g" using assms(1) by (rule wfGraph_initial)
  have cl: "closedGraph ?g" using assms(2) by (rule closedGraph_initial)
  have ac: "acyclic (graphRel ?g)" using assms(3) by (rule acyclic_initial)
  from groupLoop_acyclic[OF wf cl ac, of maxDepth "[]"] obtain plan where
    "groupLoop maxDepth ?g [] = Some plan" by auto
  then show ?thesis by (simp add: getModuleRunGraph_ok[OF assms(1,2)])
qed

text \<open>
  C3 (amended). For every stack and command and every plan that \<open>getModuleRunGraph\<close>
  returns, no module of the plan is \<open>AssumeAlreadyApplied\<close>. When moreover the paths of
  the stack are distinct, a module \<open>b\<close> of the stack that is not \<open>AssumeAlreadyApplied\<close>
  and whose prerequisites, at least one, are all \<open>AssumeAlreadyApplied\<close> modules is
  deferred by the first iteration and scheduled by the second: it is in the first group of
  the plan when no module of the stack is ready to run in the first iteration, and in the
  second group otherwise. A plan is returned whenever the paths are distinct, the
  dependencies resolved in the stack and the dependency relation acyclic.
\<close>

theorem applied_modules_not_scheduled:
  "(getModuleRunGraph stack cmd = Some (Inr plan) \<longrightarrow>
      (\<forall>m\<in>set (concat plan). \<not> AssumeAlreadyApplied m))
   \<and> (getModuleRunGraph stack cmd = Some (Inr plan)
        \<and> distinct (map Path (Modules stack))
        \<and> b \<in> set (Modules stack) \<and> \<not> AssumeAlreadyApplied b
        \<and> prerequisites (Modules stack) cmd b \<noteq> {}
        \<and> prerequisites (Modules stack) cmd b \<subseteq> appliedPaths (Modules stack)
      \<longrightarrow> (if \<exists>m\<in>set (Modules stack).
                 \<not> AssumeAlreadyApplied m \<and> prerequisites (Modules stack) cmd m = {}
            then 1 < length plan \<and> b \<in> set (plan ! 1)
            else 0 < length plan \<and> b \<in> set (plan ! 0)))
   \<and> (distinct (map Path (Modules stack)) \<and> resolved (Modules stack)
        \<and> acyclic (depRel (Modules stack))
      \<longrightarrow> (\<exists>plan'. getModuleRunGraph stack cmd = Some (Inr plan')))"
proof (intro conjI impI)
  assume "getModuleRunGraph stack cmd = Some (Inr plan)"
  then obtain g where "groupLoop maxDepth g [] = Some plan"
    by (rule getModuleRunGraph_Inr)
  from groupLoop_shape[OF this] show "\<forall>m\<in>set (concat plan). \<not> AssumeAlreadyApplied m"
    by auto
next
  let ?ms = "Modules stack"
  assume h: "getModuleRunGraph stack cmd = Some (Inr plan)
        \<and> distinct (map Path ?ms)
        \<and> b \<in> set ?ms \<and> \<not> AssumeAlreadyApplied b
        \<and> prerequisites ?ms cmd b \<noteq> {}
        \<and> prerequisites ?ms cmd b \<subseteq> appliedPaths ?ms"
  then have res: "getModuleRunGraph stack cmd = Some (Inr plan)"
    and d: "distinct (map Path ?ms)"
    and b: "b \<in> set ?ms" "\<not> AssumeAlreadyApplied b"
    and p: "prerequisites ?ms cmd b \<noteq> {}" "prerequisites ?ms cmd b \<subseteq> appliedPaths ?ms"
    by simp_all
  from res obtain g where g: "toRunningModules ?ms (orderOf cmd) = Inr g"
    and run: "groupLoop maxDepth g [] = Some plan"
    by (rule getModuleRunGraph_Inr)
  from toRunningModules_initial[OF d g] run
  have run': "groupLoop maxDepth (initialGraph ?ms cmd) [] = Some plan" by simp
  have c: "2 \<le> maxDepth" by (simp add: maxDepth_def)
  have ready: "deployOf (initialGraph ?ms cmd) \<noteq> [] \<longleftrightarrow>
     (\<exists>m\<in>set ?ms. \<not> AssumeAlreadyApplied m \<and> prerequisites ?ms cmd m = {})"
  proof -
    have "deployOf (initialGraph ?ms cmd) \<noteq> [] \<longleftrightarrow>
        set (deployOf (initialGraph ?ms cmd)) \<noteq> {}" by simp
    also have "\<dots> \<longleftrightarrow>
        (\<exists>m\<in>set ?ms. \<not> AssumeAlreadyApplied m \<and> prerequisites ?ms cmd m = {})"
      unfolding set_deployOf_initial by blast
    finally show ?thesis .
  qed
  from second_iteration_position[OF d b p c run'] have
    pos: "(if deployOf (initialGraph ?ms cmd) \<noteq> [] then 1 else 0) < length plan"
      "b \<in> set (plan ! (if deployOf (initialGraph ?ms cmd) \<noteq> [] then 1 else 0))"
    by simp_all
  show "if \<exists>m\<in>set ?ms. \<not> AssumeAlreadyApplied m \<and> prerequisites ?ms cmd m = {}
        then 1 < length plan \<and> b \<in> set (plan ! 1)
        else 0 < length plan \<and> b \<in> set (plan ! 0)"
  proof (cases "\<exists>m\<in>set ?ms. \<not> AssumeAlreadyApplied m \<and> prerequisites ?ms cmd m = {}")
    case True
    with ready have "deployOf (initialGraph ?ms cmd) \<noteq> []" by simp
    with pos have "1 < length plan \<and> b \<in> set (plan ! 1)" by simp
    with True show ?thesis by (simp only: if_True)
  next
    case False
    with ready have "deployOf (initialGraph ?ms cmd) = []" by simp
    with pos have "0 < length plan \<and> b \<in> set (plan ! 0)" by simp
    with False show ?thesis by (simp only: if_False)
  qed
next
  assume "distinct (map Path (Modules stack)) \<and> resolved (Modules stack)
        \<and> acyclic (depRel (Modules stack))"
  then have d: "distinct (map Path (Modules stack))" and r: "resolved (Modules stack)"
    and a: "acyclic (depRel (Modules stack))" by simp_all
  from runPlan_exists[OF d r a, of cmd]
  show "\<exists>plan'. getModuleRunGraph stack cmd = Some (Inr plan')" .
qed

text \<open>
  The theorem of C3 at the stack of \<open>A\<close> (already applied), \<open>B\<close> (depends on \<open>A\<close>) and
  \<open>C\<close> (no dependencies), whose plan is \<open>[[C], [B]]\<close>.
\<close>

theorem applied_modules_not_scheduled_witness:
  "getModuleRunGraph stackApplied CommandNameApply = Some (Inr [[moduleC], [moduleB]])
   \<and> \<not> AssumeAlreadyApplied moduleC \<and> \<not> AssumeAlreadyApplied moduleB
   \<and> 1 < length [[moduleC], [moduleB]] \<and> moduleB \<in> set ([[moduleC], [moduleB]] ! 1)
   \<and> (\<exists>plan'. getModuleRunGraph stackApplied CommandNameApply = Some (Inr plan'))"
proof -
  have ne: "CommandNameApply \<noteq> CommandNameDestroy"
    by (simp add: CommandNameApply_def CommandNameDestroy_def)
  have b: "moduleB \<in> set (Modules stackApplied)" "\<not> AssumeAlreadyApplied moduleB"
    by (simp_all add: stackApplied_def moduleB_def exampleModule_def)
  have pb: "prerequisites (Modules stackApplied) CommandNameApply moduleB = {''A''}"
    using ne by (simp add: prerequisites_def moduleB_def exampleModule_def)
  have ap: "appliedPaths (Modules stackApplied) = {''A''}"
    by (simp add: appliedPaths_def stackApplied_def appliedA_def moduleB_def moduleC_def
        exampleModule_def)
  have c: "moduleC \<in> set (Modules stackApplied)" "\<not> AssumeAlreadyApplied moduleC"
      "prerequisites (Modules stackApplied) CommandNameApply moduleC = {}"
    using ne by (simp_all add: stackApplied_def prerequisites_def moduleC_def exampleModule_def)
  then have ex: "\<exists>m\<in>set (Modules stackApplied). \<not> AssumeAlreadyApplied m
      \<and> prerequisites (Modules stackApplied) CommandNameApply m = {}" by blast
  from applied_modules_not_scheduled[of stackApplied CommandNameApply
      "[[moduleC], [moduleB]]" moduleB]
    stackApplied_plan stackApplied_distinct stackApplied_resolved stackApplied_acyclic b pb ap ex
  show ?thesis by auto
qed

text \<open>
  C3 as stated fails at that stack: \<open>B\<close> is not \<open>AssumeAlreadyApplied\<close>, its only
  prerequisite \<open>A\<close> is, and \<open>B\<close> is in the second group of the plan, not in the first.
\<close>

theorem applied_modules_not_scheduled_counterexample:
  "getModuleRunGraph stackApplied CommandNameApply = Some (Inr [[moduleC], [moduleB]])
   \<and> \<not> AssumeAlreadyApplied moduleB
   \<and> set (Dependencies moduleB) = {Path appliedA}
   \<and> AssumeAlreadyApplied appliedA
   \<and> moduleB \<notin> set ([[moduleC], [moduleB]] ! 0)"
  by (simp add: stackApplied_plan)
     (simp add: appliedA_def moduleB_def moduleC_def exampleModule_def)

end
